theory Spec2Isabelle
  imports Complex_Main "HOL-Library.Log_Nat"
begin

section \<open>The slot machine of \<^verbatim>\<open>src/main.cpp\<close>\<close>

text \<open>
  The program is one class, \<^verbatim>\<open>SlotMachine\<close>, over an SQLite file. The embedding has four
  layers: the arithmetic of C++ \<^verbatim>\<open>double\<close>, the content of the database file with the five
  SQL statements the source issues, the methods of the class as state transformers on a
  process state, and \<^verbatim>\<open>main\<close>.

  What the environment decides is a parameter: the values the extraction operators read
  from standard input, the indices the distribution object returns, and whether a call
  into SQLite fails for a reason outside the program (busy or read-only file, full disk).
\<close>

subsection \<open>C++ \<^verbatim>\<open>double\<close>: IEEE 754 binary64, round to nearest, ties to even\<close>

text \<open>
  A finite double is represented by its rational value, so the two zeros are one value
  (their sign shows only in printing). \<open>rnd\<close> rounds an exact result to the nearest
  double: 53 significant bits, smallest quantum \<open>2\<^sup>-\<^sup>1\<^sup>0\<^sup>7\<^sup>4\<close>, overflow to an infinity from
  \<open>2\<^sup>1\<^sup>0\<^sup>2\<^sup>4\<close> on.
\<close>

datatype double = Fin rat | PInf | NInf | NaN

definition pow2 :: "int \<Rightarrow> rat" where
  "pow2 e = (if 0 \<le> e then of_int (2 ^ nat e) else 1 / of_int (2 ^ nat (- e)))"

definition ilog2 :: "rat \<Rightarrow> int" where
  \<comment> \<open>\<open>\<lfloor>log\<^sub>2 a\<rfloor>\<close> for \<open>a > 0\<close>\<close>
  "ilog2 a = (let (p, q) = quotient_of a; d = bitlen p - bitlen q
              in if pow2 d \<le> a then d else d - 1)"

definition round_half_even :: "rat \<Rightarrow> int" where
  "round_half_even m =
     (let n = \<lfloor>m\<rfloor>; f = m - of_int n
      in if f < 1 / 2 then n
         else if 1 / 2 < f then n + 1
         else if even n then n else n + 1)"

definition rnd :: "rat \<Rightarrow> double" where
  "rnd x =
     (if x = 0 then Fin 0
      else let a = \<bar>x\<bar>;
               e = max (ilog2 a) (- 1022);
               q = pow2 (e - 52);
               y = of_int (round_half_even (a / q)) * q
           in if pow2 1024 \<le> y then (if 0 < x then PInf else NInf)
              else Fin (if 0 < x then y else - y))"

definition is_finite :: "double \<Rightarrow> bool" where
  \<comment> \<open>a finite value that a \<^verbatim>\<open>double\<close> holds: what \<^verbatim>\<open>std::cin >> bet\<close> yields\<close>
  "is_finite d = (case d of Fin x \<Rightarrow> rnd x = Fin x | _ \<Rightarrow> False)"

fun dadd :: "double \<Rightarrow> double \<Rightarrow> double" where
  "dadd (Fin a) (Fin b) = rnd (a + b)"
| "dadd NaN _ = NaN"
| "dadd _ NaN = NaN"
| "dadd PInf NInf = NaN"
| "dadd NInf PInf = NaN"
| "dadd PInf _ = PInf"
| "dadd _ PInf = PInf"
| "dadd NInf _ = NInf"
| "dadd _ NInf = NInf"

fun dsub :: "double \<Rightarrow> double \<Rightarrow> double" where
  "dsub (Fin a) (Fin b) = rnd (a - b)"
| "dsub NaN _ = NaN"
| "dsub _ NaN = NaN"
| "dsub PInf PInf = NaN"
| "dsub NInf NInf = NaN"
| "dsub PInf _ = PInf"
| "dsub _ NInf = PInf"
| "dsub NInf _ = NInf"
| "dsub _ PInf = NInf"

text \<open>
  \<^verbatim>\<open>std::cout << x\<close> for a \<^verbatim>\<open>double\<close>, on a stream whose format flags and precision are the
  initial ones (the program changes neither): the conversion \<^verbatim>\<open>%g\<close> with precision 6. The
  value is rounded to six significant decimal digits, an exact tie to the even digit. With
  \<open>X\<close> the decimal exponent of the rounded value, the fixed notation is used when
  \<open>-4 \<le> X < 6\<close> and the scientific one otherwise, with an exponent of at least two digits;
  trailing zeros of the fraction are dropped, and the point with them when no digit is left.
  \<open>ilog10 a\<close> is \<open>\<lfloor>log\<^sub>1\<^sub>0 a\<rfloor>\<close> for \<open>a > 0\<close>, and \<open>dec\<close> the decimal digits of a natural number. A
  zero prints as \<^verbatim>\<open>0\<close>: the balance, the one double the program prints, is never the negative
  zero, since \<open>0 - bet\<close> is not and then neither is a sum with it. \<^verbatim>\<open>nan\<close> stands for a NaN of
  either sign.
\<close>

function digits10 :: "int \<Rightarrow> nat" where
  "digits10 n = (if n < 10 then 1 else Suc (digits10 (n div 10)))"
  by pat_completeness auto
termination
  by (relation "measure nat") auto

definition ilog10 :: "rat \<Rightarrow> int" where
  "ilog10 a = (if 1 \<le> a then int (digits10 \<lfloor>a\<rfloor>) - 1
               else - int (digits10 (\<lceil>1 / a\<rceil> - 1)))"

definition pow10 :: "int \<Rightarrow> rat" where
  "pow10 e = (if 0 \<le> e then of_int (10 ^ nat e) else 1 / of_int (10 ^ nat (- e)))"

function dec :: "int \<Rightarrow> string" where
  "dec n = (if n < 10 then [''0123456789'' ! nat n]
            else dec (n div 10) @ [''0123456789'' ! nat (n mod 10)])"
  by pat_completeness auto
termination
  by (relation "measure nat") auto

definition strip_zeros :: "string \<Rightarrow> string" where
  "strip_zeros s = rev (dropWhile (\<lambda>c. c = CHR ''0'') (rev s))"

definition show_positive :: "rat \<Rightarrow> string" where
  "show_positive a =
     (let x0 = ilog10 a;
          n0 = round_half_even (a / pow10 (x0 - 5));
          x = (if n0 = 10 ^ 6 then x0 + 1 else x0);
          ds = dec (if n0 = 10 ^ 6 then 10 ^ 5 else n0)
      in if x < - 4 \<or> 6 \<le> x
         then (let frac = strip_zeros (tl ds); e = dec \<bar>x\<bar>
               in hd ds # (if frac = [] then [] else CHR ''.'' # frac)
                  @ ''e'' @ (if x < 0 then ''-'' else ''+'')
                  @ (if length e < 2 then CHR ''0'' # e else e))
         else if 0 \<le> x
         then (let frac = strip_zeros (drop (nat x + 1) ds)
               in take (nat x + 1) ds @ (if frac = [] then [] else CHR ''.'' # frac))
         else ''0.'' @ replicate (nat (- x - 1)) (CHR ''0'') @ strip_zeros ds)"

definition show_double :: "double \<Rightarrow> string" where
  "show_double d =
     (case d of
        Fin x \<Rightarrow> (if x = 0 then ''0'' else if x < 0 then CHR ''-'' # show_positive (- x)
                  else show_positive x)
      | PInf \<Rightarrow> ''inf'' | NInf \<Rightarrow> ''-inf'' | NaN \<Rightarrow> ''nan'')"

subsection \<open>The database file\<close>

text \<open>
  The two tables of \<^verbatim>\<open>createTables\<close>. A table is its rows in rowid order (the order of a
  scan) and the AUTOINCREMENT high-water mark kept in \<^verbatim>\<open>sqlite_sequence\<close>. A table that was
  never created is \<open>None\<close>. Rows hold what the program's statements write: \<^verbatim>\<open>name\<close>,
  \<^verbatim>\<open>age\<close> and \<^verbatim>\<open>card\<close> are never NULL, \<^verbatim>\<open>balance\<close> is NULL (\<open>None\<close>) only when a NaN was
  bound. Foreign keys are not enforced: the program never turns them on.
\<close>

record player =
  p_id :: int
  p_name :: string
  p_age :: int
  p_card :: string
  p_balance :: "double option"

record spin =
  h_id :: int
  h_player_id :: int
  h_bet :: double
  h_winnings :: double
  h_balance :: double

record 'r table =
  rows :: "'r list"
  seq :: int

record store =
  players :: "player table option"
  spin_history :: "spin table option"

datatype ddl = CreatePlayers | CreateHistory

definition max_rowid :: "int" where
  "max_rowid = 2 ^ 63 - 1"

definition next_rowid :: "int list \<Rightarrow> int \<Rightarrow> int option" where
  \<comment> \<open>AUTOINCREMENT: one more than the largest rowid the table ever held; SQLITE_FULL at the end\<close>
  "next_rowid ids sq =
     (let m = fold max ids sq in if m < max_rowid then Some (m + 1) else None)"

definition bind_double :: "double \<Rightarrow> double option" where
  \<comment> \<open>\<^verbatim>\<open>sqlite3_bind_double\<close> binds NULL for a NaN\<close>
  "bind_double d = (if d = NaN then None else Some d)"

definition c_str :: "string \<Rightarrow> string" where
  \<comment> \<open>\<^verbatim>\<open>sqlite3_bind_text(.., s.c_str(), -1, ..)\<close> reads up to the first NUL\<close>
  "c_str s = takeWhile (\<lambda>c. c \<noteq> CHR 0x00) s"

definition column_int :: "int \<Rightarrow> int" where
  \<comment> \<open>\<^verbatim>\<open>sqlite3_column_int\<close>: the low 32 bits of the 64-bit value, as a signed \<^verbatim>\<open>int\<close>\<close>
  "column_int v = (v + 2 ^ 31) mod 2 ^ 32 - 2 ^ 31"

definition sql_create :: "ddl \<Rightarrow> store \<Rightarrow> store option" where
  \<comment> \<open>\<^verbatim>\<open>CREATE TABLE IF NOT EXISTS\<close>\<close>
  "sql_create q st =
     (case q of
        CreatePlayers \<Rightarrow>
          Some (case players st of
                  None \<Rightarrow> st\<lparr>players := Some \<lparr>rows = [], seq = 0\<rparr>\<rparr>
                | Some _ \<Rightarrow> st)
      | CreateHistory \<Rightarrow>
          Some (case spin_history st of
                  None \<Rightarrow> st\<lparr>spin_history := Some \<lparr>rows = [], seq = 0\<rparr>\<rparr>
                | Some _ \<Rightarrow> st))"

definition matches :: "string \<Rightarrow> int \<Rightarrow> string \<Rightarrow> player \<Rightarrow> bool" where
  "matches name age crd r = (p_name r = name \<and> p_age r = age \<and> p_card r = crd)"

definition sql_select_id :: "string \<Rightarrow> int \<Rightarrow> string \<Rightarrow> store \<Rightarrow> int list option" where
  \<comment> \<open>\<^verbatim>\<open>SELECT id FROM players WHERE name = ? AND age = ? AND card = ?\<close>\<close>
  "sql_select_id name age crd st =
     (case players st of
        None \<Rightarrow> None
      | Some t \<Rightarrow> Some (map p_id (filter (matches name age crd) (rows t))))"

definition sql_insert_player :: "string \<Rightarrow> int \<Rightarrow> string \<Rightarrow> store \<Rightarrow> store option" where
  \<comment> \<open>\<^verbatim>\<open>INSERT INTO players (name, age, card) VALUES (?, ?, ?)\<close>; \<^verbatim>\<open>balance\<close> takes its default\<close>
  "sql_insert_player name age crd st =
     (case players st of
        None \<Rightarrow> None
      | Some t \<Rightarrow>
          (case next_rowid (map p_id (rows t)) (seq t) of
             None \<Rightarrow> None
           | Some i \<Rightarrow>
               Some (st\<lparr>players := Some \<lparr>rows = rows t @
                      [\<lparr>p_id = i, p_name = name, p_age = age, p_card = crd,
                        p_balance = Some (Fin 0)\<rparr>], seq = i\<rparr>\<rparr>)))"

definition sql_update_balance :: "double option \<Rightarrow> int \<Rightarrow> store \<Rightarrow> store option" where
  \<comment> \<open>\<^verbatim>\<open>UPDATE players SET balance = ? WHERE id = ?\<close>\<close>
  "sql_update_balance v i st =
     (case players st of
        None \<Rightarrow> None
      | Some t \<Rightarrow>
          Some (st\<lparr>players :=
            Some (t\<lparr>rows := map (\<lambda>r. if p_id r = i then r\<lparr>p_balance := v\<rparr> else r) (rows t)\<rparr>)\<rparr>))"

definition sql_insert_spin ::
  "int \<Rightarrow> double option \<Rightarrow> double option \<Rightarrow> double option \<Rightarrow> store \<Rightarrow> store option" where
  \<comment> \<open>\<^verbatim>\<open>INSERT INTO spin_history (player_id, bet, winnings, balance) VALUES (?, ?, ?, ?)\<close>;
      the three amounts are NOT NULL\<close>
  "sql_insert_spin pid b w bal st =
     (case spin_history st of
        None \<Rightarrow> None
      | Some t \<Rightarrow>
          (case (b, w, bal) of
             (Some b', Some w', Some bal') \<Rightarrow>
               (case next_rowid (map h_id (rows t)) (seq t) of
                  None \<Rightarrow> None
                | Some i \<Rightarrow>
                    Some (st\<lparr>spin_history := Some \<lparr>rows = rows t @
                           [\<lparr>h_id = i, h_player_id = pid, h_bet = b', h_winnings = w',
                             h_balance = bal'\<rparr>], seq = i\<rparr>\<rparr>))
           | _ \<Rightarrow> None))"

subsection \<open>The process\<close>

text \<open>
  The state a method can change: the database file, what was inserted into \<^verbatim>\<open>std::cout\<close>
  and into \<^verbatim>\<open>std::cerr\<close>, and two counters that index the environment: the number of calls
  made into SQLite and the number of calls of \<^verbatim>\<open>getSpinResult\<close>. An \<open>item\<close> is one operand of
  \<^verbatim>\<open><<\<close>: a string, a character, a double, \<^verbatim>\<open>std::endl\<close> or the message of SQLite. \<open>Dbl x\<close> is
  the double handed to the stream, not the text the stream makes of it, which is
  \<open>show_double x\<close>.
\<close>

datatype item = Str string | Chr char | Dbl double | Endl | ErrMsg

record proc =
  db :: store
  cout :: "item list"
  cerr :: "item list"
  calls :: nat
  spins :: nat

record env =
  fault :: "nat \<Rightarrow> bool"
  draws :: "nat \<Rightarrow> nat \<Rightarrow> nat"

definition print :: "item list \<Rightarrow> proc \<Rightarrow> proc" where
  "print xs s = s\<lparr>cout := cout s @ xs\<rparr>"

definition eprint :: "item list \<Rightarrow> proc \<Rightarrow> proc" where
  "eprint xs s = s\<lparr>cerr := cerr s @ xs\<rparr>"

definition sqlite_call :: "env \<Rightarrow> (store \<Rightarrow> 'a option) \<Rightarrow> proc \<Rightarrow> 'a option \<times> proc" where
  \<comment> \<open>one prepare/bind/step/finalize (or \<^verbatim>\<open>sqlite3_exec\<close>): the statement's own result unless
      the environment makes the call fail\<close>
  "sqlite_call E stmt s =
     ((if fault E (calls s) then None else stmt (db s)), s\<lparr>calls := Suc (calls s)\<rparr>)"

definition symbols :: "(char \<times> int) list" where
  \<comment> \<open>the \<^verbatim>\<open>std::map\<close>, in the order its iterator walks it\<close>
  "symbols = [(CHR ''A'', 5), (CHR ''B'', 4), (CHR ''C'', 3), (CHR ''D'', 2)]"

definition executeQuery :: "env \<Rightarrow> ddl \<Rightarrow> proc \<Rightarrow> proc" where
  "executeQuery E q s =
     (case sqlite_call E (sql_create q) s of
        (Some d, s') \<Rightarrow> s'\<lparr>db := d\<rparr>
      | (None, s') \<Rightarrow> eprint [Str ''Error executing query: '', ErrMsg, Endl] s')"

definition createTables :: "env \<Rightarrow> proc \<Rightarrow> proc" where
  "createTables E s = executeQuery E CreateHistory (executeQuery E CreatePlayers s)"

definition getPlayerID :: "env \<Rightarrow> string \<Rightarrow> int \<Rightarrow> string \<Rightarrow> proc \<Rightarrow> int \<times> proc" where
  "getPlayerID E name age crd s =
     (case sqlite_call E (sql_select_id (c_str name) age (c_str crd)) s of
        (Some (v # _), s') \<Rightarrow> (column_int v, s')
      | (_, s') \<Rightarrow> (- 1, s'))"

definition addPlayer :: "env \<Rightarrow> string \<Rightarrow> int \<Rightarrow> string \<Rightarrow> proc \<Rightarrow> proc" where
  "addPlayer E name age crd s =
     (case sqlite_call E (sql_insert_player (c_str name) age (c_str crd)) s of
        (Some d, s') \<Rightarrow> s'\<lparr>db := d\<rparr>
      | (None, s') \<Rightarrow> eprint [Str ''Error adding player.'', Endl] s')"

definition updateBalance :: "env \<Rightarrow> int \<Rightarrow> double \<Rightarrow> proc \<Rightarrow> proc" where
  "updateBalance E playerId newBalance s =
     (case sqlite_call E (sql_update_balance (bind_double newBalance) playerId) s of
        (Some d, s') \<Rightarrow> s'\<lparr>db := d\<rparr>
      | (None, s') \<Rightarrow> eprint [Str ''Error updating balance.'', Endl] s')"

definition saveSpinHistory :: "env \<Rightarrow> int \<Rightarrow> double \<Rightarrow> double \<Rightarrow> double \<Rightarrow> proc \<Rightarrow> proc" where
  "saveSpinHistory E playerId bet winnings balance s =
     (case sqlite_call E (sql_insert_spin playerId (bind_double bet) (bind_double winnings)
                            (bind_double balance)) s of
        (Some d, s') \<Rightarrow> s'\<lparr>db := d\<rparr>
      | (None, s') \<Rightarrow> eprint [Str ''Error saving spin history.'', Endl] s')"

definition advance_begin :: "nat \<Rightarrow> char option" where
  \<comment> \<open>\<^verbatim>\<open>std::advance(it, k)\<close> from \<^verbatim>\<open>symbols.begin()\<close>, then \<^verbatim>\<open>it->first\<close>; past the last
      element the C++ is undefined\<close>
  "advance_begin k = (if k < length symbols then Some (fst (symbols ! k)) else None)"

definition getSpinResult :: "(nat \<Rightarrow> nat) \<Rightarrow> char list list option" where
  \<comment> \<open>\<open>d k\<close> is the value of the \<open>k\<close>-th \<^verbatim>\<open>dist(gen)\<close> of this call\<close>
  "getSpinResult d =
     those (map (\<lambda>i. those (map (\<lambda>j. advance_begin (d (3 * i + j))) [0..<3])) [0..<3])"

definition displaySpinResult :: "char list list \<Rightarrow> proc \<Rightarrow> proc" where
  "displaySpinResult result s =
     print (concat (map (\<lambda>row. concat (map (\<lambda>symbol. [Chr symbol, Str '' '']) row) @ [Endl])
                      result)) s"

text \<open>
  \<^verbatim>\<open>play\<close> in three parts: the prompts and the player lookup (lines 149 to 163), the
  starting balance (165, 166) and the loop (168 to 187). Standard input is the values its
  extractions yield: the name, the age and the card, then the characters read into
  \<^verbatim>\<open>choice\<close> and the doubles read into \<^verbatim>\<open>bet\<close>, each in the order read. When one of the two
  runs out the process is \<open>Blocked\<close> at that read; what the C++ does at end of input or on
  text that does not parse is outside the model. \<open>Undefined\<close> is a draw outside
  \<open>0 .. symbols.size() - 1\<close>, which the distribution object never returns.
\<close>

datatype outcome = Returned | Blocked | Undefined

definition resolve :: "env \<Rightarrow> string \<Rightarrow> int \<Rightarrow> string \<Rightarrow> proc \<Rightarrow> int \<times> proc" where
  "resolve E name age crd s =
     (let (playerId, s1) = getPlayerID E name age crd s
      in if playerId = - 1
         then getPlayerID E name age crd
                (addPlayer E name age crd
                  (print [Str ''New player detected. Adding to database.'', Endl] s1))
         else (playerId, s1))"

definition identify :: "env \<Rightarrow> string \<Rightarrow> int \<Rightarrow> string \<Rightarrow> proc \<Rightarrow> int \<times> proc" where
  "identify E name age crd s =
     resolve E name age crd
       (print [Str ''Enter your name: '', Str ''Enter your age: '', Str ''Enter your card: ''] s)"

definition spin_once :: "env \<Rightarrow> int \<Rightarrow> double \<Rightarrow> char list list \<Rightarrow> double \<times> proc \<Rightarrow> double \<times> proc" where
  \<comment> \<open>lines 179 to 186, after the grid is drawn\<close>
  "spin_once E playerId bet result bs =
     (let (balance, s) = bs;
          s1 = displaySpinResult result (s\<lparr>spins := Suc (spins s)\<rparr>);
          winnings = Fin 0;
          balance' = dadd balance (dsub winnings bet);
          s2 = updateBalance E playerId balance' s1;
          s3 = saveSpinHistory E playerId bet winnings balance' s2
      in (balance', print [Str ''New Balance: '', Dbl balance', Endl] s3))"

fun spin_loop ::
  "env \<Rightarrow> int \<Rightarrow> char list \<Rightarrow> double list \<Rightarrow> double \<times> proc \<Rightarrow> outcome \<times> double \<times> proc" where
  "spin_loop E playerId [] bets (balance, s) =
     (Blocked, balance, print [Str ''Press 'p' to play, 'q' to quit: ''] s)"
| "spin_loop E playerId (choice # choices) bets (balance, s) =
     (let s1 = print [Str ''Press 'p' to play, 'q' to quit: ''] s
      in if choice = CHR ''q'' then (Returned, balance, s1)
         else let s2 = print [Str ''Enter your bet amount: ''] s1
              in (case bets of
                    [] \<Rightarrow> (Blocked, balance, s2)
                  | bet # bets' \<Rightarrow>
                      (case getSpinResult (draws E (spins s2)) of
                         None \<Rightarrow> (Undefined, balance, s2)
                       | Some result \<Rightarrow>
                           spin_loop E playerId choices bets'
                             (spin_once E playerId bet result (balance, s2)))))"

record input =
  in_name :: string
  in_age :: int
  in_card :: string
  in_choices :: "char list"
  in_bets :: "double list"

definition play :: "env \<Rightarrow> input \<Rightarrow> proc \<Rightarrow> outcome \<times> double \<times> proc" where
  "play E inp s =
     (let (playerId, s1) = identify E (in_name inp) (in_age inp) (in_card inp) s;
          balance = Fin 100;
          s2 = updateBalance E playerId balance s1
      in spin_loop E playerId (in_choices inp) (in_bets inp) (balance, s2))"

text \<open>
  \<^verbatim>\<open>main\<close>: the constructor opens the file (call number 0) and creates the tables, then
  \<^verbatim>\<open>play\<close> runs. The result is the exit status, if the process has ended, and the final
  state. \<open>file\<close> is the content of \<^verbatim>\<open>slot_machine.db\<close> when the process starts; a file that
  does not exist yet is \<open>empty_file\<close>.
\<close>

definition empty_file :: store where
  "empty_file = \<lparr>players = None, spin_history = None\<rparr>"

definition start :: "store \<Rightarrow> proc" where
  "start file = \<lparr>db = file, cout = [], cerr = [], calls = 0, spins = 0\<rparr>"

definition SlotMachine :: "env \<Rightarrow> proc \<Rightarrow> proc + proc" where
  \<comment> \<open>the constructor; \<open>Inl\<close> is the state at \<^verbatim>\<open>exit(1)\<close>\<close>
  "SlotMachine E s =
     (case sqlite_call E Some s of
        (None, s') \<Rightarrow> Inl (eprint [Str ''Error opening database.'', Endl] s')
      | (Some _, s') \<Rightarrow> Inr (createTables E s'))"

definition main :: "env \<Rightarrow> input \<Rightarrow> store \<Rightarrow> int option \<times> proc" where
  "main E inp file =
     (case SlotMachine E (start file) of
        Inl s \<Rightarrow> (Some 1, s)
      | Inr s \<Rightarrow>
          (case play E inp s of
             (Returned, _, s') \<Rightarrow> (Some 0, s')
           | (_, _, s') \<Rightarrow> (None, s')))"

subsection \<open>Reading a run\<close>

text \<open>
  \<open>reported\<close> is the list of the doubles inserted into \<^verbatim>\<open>std::cout\<close>, the balances after
  \<^verbatim>\<open>New Balance:\<close>, and \<open>printed\<close> the texts the user reads for them. \<open>balances\<close> is the
  running balance under double subtraction, one entry per bet. \<open>turns\<close> is the number of
  spins a script asks for: the commands before the first \<^verbatim>\<open>'q'\<close>, as far as there are bets.
  \<open>shown\<close> is what a run of the loop shows: its outcome, the balance, standard output and
  the numbers of calls into SQLite and of spins.
\<close>

fun reported :: "item list \<Rightarrow> double list" where
  "reported [] = []"
| "reported (Dbl d # xs) = d # reported xs"
| "reported (_ # xs) = reported xs"

definition printed :: "item list \<Rightarrow> string list" where
  "printed out = map show_double (reported out)"

fun balances :: "double \<Rightarrow> double list \<Rightarrow> double list" where
  "balances b [] = []"
| "balances b (x # xs) = dsub b x # balances (dsub b x) xs"

definition turns :: "char list \<Rightarrow> double list \<Rightarrow> nat" where
  "turns choices bets = min (length (takeWhile (\<lambda>c. c \<noteq> CHR ''q'') choices)) (length bets)"

definition shown :: "outcome \<times> double \<times> proc \<Rightarrow> outcome \<times> double \<times> item list \<times> nat \<times> nat" where
  "shown r = (fst r, fst (snd r), cout (snd (snd r)), calls (snd (snd r)), spins (snd (snd r)))"

text \<open>
  The four glyphs, in the order of the keys of \<^verbatim>\<open>symbols\<close>, and the grids a spin can show:
  three rows of three glyphs. \<open>draw_of\<close> reads a list of draws as the sequence of values
  of \<^verbatim>\<open>dist(gen)\<close>.
\<close>

definition glyphs :: "char list" where
  "glyphs = ''ABCD''"

definition is_grid :: "char list list \<Rightarrow> bool" where
  "is_grid g = (length g = 3 \<and> list_all (\<lambda>row. length row = 3 \<and> list_all (\<lambda>c. c \<in> set glyphs) row) g)"

definition draw_of :: "nat list \<Rightarrow> nat \<Rightarrow> nat" where
  "draw_of ds k = (if k < length ds then ds ! k else 0)"

text \<open>
  The distribution of a spin. \<^verbatim>\<open>dist\<close> is a \<^verbatim>\<open>std::uniform_int_distribution<>\<close> on
  \<open>0 .. symbols.size() - 1\<close> (line 113). By the C++ standard a call \<^verbatim>\<open>dist(gen)\<close> on a uniform
  random bit generator returns \<open>i\<close> with probability \<open>1 / (b - a + 1)\<close> when \<open>a \<le> i \<le> b\<close> and
  never another value, and successive calls are independent. So \<open>draw_prob ds\<close> is the
  probability that the nine calls of one spin return \<open>ds\<close>, \<open>draw_space\<close> lists the
  sequences of nine values in range, and \<open>prob A\<close> is the probability that the draws of a
  spin satisfy \<open>A\<close>. How close \<^verbatim>\<open>std::mt19937\<close>, seeded from \<^verbatim>\<open>std::random_device\<close> in every
  call (lines 111 and 112), comes to a uniform random bit generator is outside the model.
  \<open>cell ds i j\<close> is the symbol in row \<open>i\<close> and column \<open>j\<close> of the grid that \<^verbatim>\<open>getSpinResult\<close>
  returns on the draws \<open>ds\<close>.
\<close>

definition uniform_int_distribution :: "int \<Rightarrow> int \<Rightarrow> int \<Rightarrow> rat" where
  "uniform_int_distribution a b i = (if a \<le> i \<and> i \<le> b then 1 / of_int (b - a + 1) else 0)"

definition dist :: "nat \<Rightarrow> rat" where
  "dist n = uniform_int_distribution 0 (int (length symbols) - 1) (int n)"

definition draw_space :: "nat list list" where
  "draw_space = List.n_lists 9 [0..<length symbols]"

definition draw_prob :: "nat list \<Rightarrow> rat" where
  "draw_prob ds = prod_list (map dist ds)"

definition prob :: "(nat list \<Rightarrow> bool) \<Rightarrow> rat" where
  "prob A = sum_list (map draw_prob (filter A draw_space))"

definition cell :: "nat list \<Rightarrow> nat \<Rightarrow> nat \<Rightarrow> char option" where
  "cell ds i j = map_option (\<lambda>g. g ! i ! j) (getSpinResult (draw_of ds))"

text \<open>
  The rows of a table that may be absent, the change an UPDATE makes to one row, and the
  rows a session is to add to the spin history: one for each bet, with the rowids that
  follow \<open>m\<close>. Two side conditions on rowids: \<open>small_ids\<close> says that the players' ids are
  positive, at most the high-water mark, and leave room for one more id that a C \<^verbatim>\<open>int\<close>
  holds; \<open>has_room\<close> says that the history table has room for \<open>n\<close> more rows. \<open>rowids_ok\<close> is
  \<open>small_ids\<close> without the bound: what AUTOINCREMENT maintains.
\<close>

definition player_rows :: "store \<Rightarrow> player list" where
  "player_rows st = (case players st of None \<Rightarrow> [] | Some t \<Rightarrow> rows t)"

definition history_rows :: "store \<Rightarrow> spin list" where
  "history_rows st = (case spin_history st of None \<Rightarrow> [] | Some t \<Rightarrow> rows t)"

definition set_balance :: "int \<Rightarrow> double option \<Rightarrow> player \<Rightarrow> player" where
  "set_balance i v r = (if p_id r = i then r\<lparr>p_balance := v\<rparr> else r)"

fun spin_rows :: "int \<Rightarrow> int \<Rightarrow> double \<Rightarrow> double list \<Rightarrow> spin list" where
  "spin_rows m p bal [] = []"
| "spin_rows m p bal (b # bs) =
     \<lparr>h_id = m + 1, h_player_id = p, h_bet = b, h_winnings = Fin 0, h_balance = dsub bal b\<rparr>
       # spin_rows (m + 1) p (dsub bal b) bs"

definition rowids_ok :: "store \<Rightarrow> bool" where
  "rowids_ok st =
     (case players st of
        None \<Rightarrow> True
      | Some t \<Rightarrow> 0 \<le> seq t \<and> list_all (\<lambda>r. 1 \<le> p_id r \<and> p_id r \<le> seq t) (rows t))"

definition small_ids :: "player table \<Rightarrow> bool" where
  "small_ids t = (0 \<le> seq t \<and> seq t < 2 ^ 31 - 1 \<and> list_all (\<lambda>r. 1 \<le> p_id r \<and> p_id r \<le> seq t) (rows t))"

definition has_room :: "spin table \<Rightarrow> nat \<Rightarrow> bool" where
  "has_room t n = (fold max (map h_id (rows t)) (seq t) + int n \<le> max_rowid)"

subsection \<open>Concrete runs\<close>

text \<open>
  Environments: one in which no call into SQLite fails, and three in which exactly one
  does, call number 0, 1 or 2: in \<^verbatim>\<open>main\<close> call 0 is the open; in a \<^verbatim>\<open>play\<close> that starts at
  call 0 the calls 1 and 2 are the INSERT of a new player and the lookup after it. In all
  of them the draws walk through the four indices. Inputs and files for the runs on which the
  properties below are exercised: \<open>alice_file\<close> is the file that the session \<open>two_bets\<close>
  leaves behind when it starts from empty tables, and the bet of \<open>tiny_bet\<close> is the double
  that \<^verbatim>\<open>std::cin >> bet\<close> reads from \<^verbatim>\<open>1e-07\<close>.
\<close>

definition no_faults :: env where
  "no_faults = \<lparr>fault = (\<lambda>n. False), draws = (\<lambda>n k. (n + k) mod 4)\<rparr>"

definition open_fails :: env where
  "open_fails = \<lparr>fault = (\<lambda>k. k = 0), draws = (\<lambda>n k. (n + k) mod 4)\<rparr>"

definition insert_fails :: env where
  "insert_fails = \<lparr>fault = (\<lambda>k. k = 1), draws = (\<lambda>n k. (n + k) mod 4)\<rparr>"

definition second_lookup_fails :: env where
  "second_lookup_fails = \<lparr>fault = (\<lambda>k. k = 2), draws = (\<lambda>n k. (n + k) mod 4)\<rparr>"

definition two_bets :: input where
  "two_bets = \<lparr>in_name = ''Alice'', in_age = 30, in_card = ''1111'', in_choices = ''ppq'',
               in_bets = [Fin 10, Fin 150]\<rparr>"

definition four_small_bets :: input where
  "four_small_bets = \<lparr>in_name = ''Alice'', in_age = 30, in_card = ''1111'',
      in_choices = ''pppp'', in_bets = replicate 4 (Fin (1 / 2 ^ 48))\<rparr>"

definition fresh_tables :: store where
  "fresh_tables = \<lparr>players = Some \<lparr>rows = [], seq = 0\<rparr>,
                    spin_history = Some \<lparr>rows = [], seq = 0\<rparr>\<rparr>"

definition alice_row :: player where
  "alice_row = \<lparr>p_id = 1, p_name = ''Alice'', p_age = 30, p_card = ''1111'',
                 p_balance = Some (Fin (- 60))\<rparr>"

definition alice_file :: store where
  "alice_file = \<lparr>players = Some \<lparr>rows = [alice_row], seq = 1\<rparr>,
     spin_history = Some \<lparr>rows =
       [\<lparr>h_id = 1, h_player_id = 1, h_bet = Fin 10, h_winnings = Fin 0, h_balance = Fin 90\<rparr>,
        \<lparr>h_id = 2, h_player_id = 1, h_bet = Fin 150, h_winnings = Fin 0, h_balance = Fin (- 60)\<rparr>],
       seq = 2\<rparr>\<rparr>"

definition one_bet :: input where
  "one_bet = \<lparr>in_name = ''Alice'', in_age = 30, in_card = ''1111'', in_choices = ''pq'',
              in_bets = [Fin 10]\<rparr>"

definition relaunch :: input where
  "relaunch = \<lparr>in_name = ''Alice'', in_age = 30, in_card = ''1111'', in_choices = ''q'',
               in_bets = []\<rparr>"

definition tiny_bet :: input where
  "tiny_bet = \<lparr>in_name = ''Alice'', in_age = 30, in_card = ''1111'',
               in_choices = ''pq'', in_bets = [rnd (1 / 10 ^ 7)]\<rparr>"

section \<open>Properties\<close>

subsection \<open>Arithmetic and frame lemmas\<close>

lemma rnd_minus: "rnd x = Fin x \<Longrightarrow> rnd (- x) = Fin (- x)"
  unfolding rnd_def Let_def
  by (cases "x = 0"; cases "0 < x") (auto split: if_splits)

lemma settle_finite:
  "is_finite bet \<Longrightarrow> dadd balance (dsub (Fin 0) bet) = dsub balance bet"
  by (cases balance; cases bet) (auto simp: is_finite_def rnd_minus)

lemma cout_print [simp]: "cout (print xs s) = cout s @ xs"
  and cerr_print [simp]: "cerr (print xs s) = cerr s"
  and db_print [simp]: "db (print xs s) = db s"
  and calls_print [simp]: "calls (print xs s) = calls s"
  and spins_print [simp]: "spins (print xs s) = spins s"
  by (simp_all add: print_def)

lemma cout_eprint [simp]: "cout (eprint xs s) = cout s"
  and cerr_eprint [simp]: "cerr (eprint xs s) = cerr s @ xs"
  and db_eprint [simp]: "db (eprint xs s) = db s"
  and calls_eprint [simp]: "calls (eprint xs s) = calls s"
  and spins_eprint [simp]: "spins (eprint xs s) = spins s"
  by (simp_all add: eprint_def)

lemma snd_sqlite_call [simp]: "snd (sqlite_call E stmt s) = s\<lparr>calls := Suc (calls s)\<rparr>"
  by (simp add: sqlite_call_def)

lemma fst_sqlite_call [simp]:
  "fst (sqlite_call E stmt s) = (if fault E (calls s) then None else stmt (db s))"
  by (simp add: sqlite_call_def)

lemma updateBalance_frame [simp]:
  "cout (updateBalance E p b s) = cout s"
  "calls (updateBalance E p b s) = Suc (calls s)"
  "spins (updateBalance E p b s) = spins s"
  by (auto simp: updateBalance_def sqlite_call_def split: option.splits)

lemma saveSpinHistory_frame [simp]:
  "cout (saveSpinHistory E p b w bal s) = cout s"
  "calls (saveSpinHistory E p b w bal s) = Suc (calls s)"
  "spins (saveSpinHistory E p b w bal s) = spins s"
  by (auto simp: saveSpinHistory_def sqlite_call_def split: option.splits)

lemma addPlayer_frame [simp]:
  "cout (addPlayer E n a c s) = cout s"
  "calls (addPlayer E n a c s) = Suc (calls s)"
  "spins (addPlayer E n a c s) = spins s"
  by (auto simp: addPlayer_def sqlite_call_def split: option.splits)

lemma executeQuery_frame [simp]:
  "cout (executeQuery E q s) = cout s"
  "calls (executeQuery E q s) = Suc (calls s)"
  "spins (executeQuery E q s) = spins s"
  by (auto simp: executeQuery_def sqlite_call_def split: option.splits)

lemma getPlayerID_state [simp]:
  "snd (getPlayerID E n a c s) = s\<lparr>calls := Suc (calls s)\<rparr>"
  by (auto simp: getPlayerID_def sqlite_call_def split: option.splits list.splits)

lemma displaySpinResult_frame [simp]:
  "db (displaySpinResult g s) = db s"
  "cerr (displaySpinResult g s) = cerr s"
  "calls (displaySpinResult g s) = calls s"
  "spins (displaySpinResult g s) = spins s"
  by (simp_all add: displaySpinResult_def)

lemma reported_append [simp]: "reported (xs @ ys) = reported xs @ reported ys"
  by (induction xs rule: reported.induct) simp_all

lemma reported_display [simp]: "reported (cout (displaySpinResult g s)) = reported (cout s)"
proof -
  have row: "reported (concat (map (\<lambda>symbol. [Chr symbol, Str '' '']) r)) = []" for r
    by (induction r) simp_all
  have "reported (concat (map (\<lambda>row. concat (map (\<lambda>symbol. [Chr symbol, Str '' '']) row) @ [Endl]) g)) = []"
    by (induction g) (simp_all add: row)
  then show ?thesis by (simp add: displaySpinResult_def)
qed

lemma spin_once_balance [simp]:
  "fst (spin_once E p bet g (bal, s)) = dadd bal (dsub (Fin 0) bet)"
  by (simp add: spin_once_def Let_def)

lemma spin_once_frame [simp]:
  "spins (snd (spin_once E p bet g (bal, s))) = Suc (spins s)"
  "calls (snd (spin_once E p bet g (bal, s))) = calls s + 2"
  "reported (cout (snd (spin_once E p bet g (bal, s)))) =
     reported (cout s) @ [dadd bal (dsub (Fin 0) bet)]"
  by (simp_all add: spin_once_def Let_def)

lemma getSpinResult_Some:
  assumes "\<forall>k. d k < 4"
  shows "\<exists>g. getSpinResult d = Some g"
  using assms by (simp add: getSpinResult_def advance_begin_def symbols_def upt_rec numeral_nat)

lemma spin_loop_run:
  assumes "\<forall>n k. draws E n k < 4" and "list_all is_finite bets"
  shows "fst (snd (spin_loop E p cs bets (bal, s))) = foldl dsub bal (take (turns cs bets) bets)
       \<and> reported (cout (snd (snd (spin_loop E p cs bets (bal, s))))) =
           reported (cout s) @ balances bal (take (turns cs bets) bets)
       \<and> spins (snd (snd (spin_loop E p cs bets (bal, s)))) = spins s + turns cs bets"
  using assms(2)
proof (induction cs arbitrary: bets bal s)
  case Nil
  then show ?case by (simp add: turns_def)
next
  case (Cons c cs)
  show ?case
  proof (cases "c = CHR ''q''")
    case True
    then show ?thesis by (simp add: turns_def)
  next
    case False
    show ?thesis
    proof (cases bets)
      case Nil
      with False show ?thesis by (simp add: turns_def)
    next
      case (Cons bet bets')
      obtain g where g: "getSpinResult (draws E (spins s)) = Some g"
        using getSpinResult_Some assms(1) by blast
      obtain bal1 s1 where so: "spin_once E p bet g
          (bal, print [Str ''Enter your bet amount: ''] (print [Str ''Press 'p' to play, 'q' to quit: ''] s)) = (bal1, s1)"
        by (cases "spin_once E p bet g
          (bal, print [Str ''Enter your bet amount: ''] (print [Str ''Press 'p' to play, 'q' to quit: ''] s))")
      from Cons Cons.prems have fin: "is_finite bet" "list_all is_finite bets'" by simp_all
      have b1: "bal1 = dsub bal bet"
        using arg_cong[OF so, of fst] fin(1) by (simp add: settle_finite)
      have s1: "spins s1 = Suc (spins s)" "reported (cout s1) = reported (cout s) @ [dsub bal bet]"
        using arg_cong[OF so, of "\<lambda>x. spins (snd x)"] arg_cong[OF so, of "\<lambda>x. reported (cout (snd x))"] fin(1)
        by (simp_all add: settle_finite)
      have t: "turns (c # cs) bets = Suc (turns cs bets')"
        using False Cons by (simp add: turns_def)
      have step: "spin_loop E p (c # cs) bets (bal, s) = spin_loop E p cs bets' (bal1, s1)"
        using False Cons g so by (simp add: Let_def)
      show ?thesis
        unfolding step t using Cons.IH[OF fin(2), of bal1 s1] Cons b1 s1 by simp
    qed
  qed
qed

lemma resolve_frame [simp]:
  "spins (snd (resolve E n a c s)) = spins s"
  "reported (cout (snd (resolve E n a c s))) = reported (cout s)"
proof -
  obtain p s1 where g: "getPlayerID E n a c s = (p, s1)"
    by (cases "getPlayerID E n a c s")
  have s1: "s1 = s\<lparr>calls := Suc (calls s)\<rparr>"
    using getPlayerID_state[of E n a c s] g by simp
  show "spins (snd (resolve E n a c s)) = spins s"
    by (simp add: resolve_def g s1)
  show "reported (cout (snd (resolve E n a c s))) = reported (cout s)"
    by (simp add: resolve_def g s1)
qed

lemma identify_frame [simp]:
  "spins (snd (identify E n a c s)) = spins s"
  "reported (cout (snd (identify E n a c s))) = reported (cout s)"
  by (simp_all add: identify_def)

lemma foldl_dsub_exact:
  assumes "\<forall>k \<le> length xs. rnd (a - sum_list (take k xs)) = Fin (a - sum_list (take k xs))"
  shows "foldl dsub (Fin a) (map Fin xs) = Fin (a - sum_list xs)"
  using assms
proof (induction xs arbitrary: a)
  case Nil
  then show ?case by simp
next
  case (Cons x xs)
  have one: "rnd (a - x) = Fin (a - x)"
    using Cons.prems[rule_format, of 1] by simp
  have rest: "\<forall>k \<le> length xs. rnd (a - x - sum_list (take k xs)) = Fin (a - x - sum_list (take k xs))"
  proof (intro allI impI)
    fix k assume "k \<le> length xs"
    then show "rnd (a - x - sum_list (take k xs)) = Fin (a - x - sum_list (take k xs))"
      using Cons.prems[rule_format, of "Suc k"] by (simp add: algebra_simps)
  qed
  show ?case
    using Cons.IH[OF rest] one by (simp add: algebra_simps)
qed

subsection \<open>Runs of the loop\<close>

lemma play_run:
  assumes "\<forall>n k. draws E n k < 4" and "list_all is_finite (in_bets inp)"
  shows "fst (snd (play E inp s)) =
           foldl dsub (Fin 100) (take (turns (in_choices inp) (in_bets inp)) (in_bets inp))"
    and "reported (cout (snd (snd (play E inp s)))) =
           reported (cout s) @
           balances (Fin 100) (take (turns (in_choices inp) (in_bets inp)) (in_bets inp))"
    and "spins (snd (snd (play E inp s))) = spins s + turns (in_choices inp) (in_bets inp)"
proof -
  obtain p s1 where id: "identify E (in_name inp) (in_age inp) (in_card inp) s = (p, s1)"
    by (cases "identify E (in_name inp) (in_age inp) (in_card inp) s")
  have s1: "spins s1 = spins s" "reported (cout s1) = reported (cout s)"
    using identify_frame[of E "in_name inp" "in_age inp" "in_card inp" s] id by simp_all
  have pl: "play E inp s =
      spin_loop E p (in_choices inp) (in_bets inp) (Fin 100, updateBalance E p (Fin 100) s1)"
    by (simp add: play_def id Let_def)
  note run = spin_loop_run[OF assms, of p "in_choices inp" "Fin 100" "updateBalance E p (Fin 100) s1"]
  show "fst (snd (play E inp s)) =
           foldl dsub (Fin 100) (take (turns (in_choices inp) (in_bets inp)) (in_bets inp))"
    unfolding pl using run by simp
  show "reported (cout (snd (snd (play E inp s)))) =
           reported (cout s) @
           balances (Fin 100) (take (turns (in_choices inp) (in_bets inp)) (in_bets inp))"
    unfolding pl using run s1 by simp
  show "spins (snd (snd (play E inp s))) = spins s + turns (in_choices inp) (in_bets inp)"
    unfolding pl using run s1 by simp
qed

subsection \<open>C1: the balance after a run of spins\<close>

text \<open>
  Claim C1, as the code has it. Winnings are the constant zero, so a spin replaces the
  balance by the double \<open>balance - bet\<close>, rounded to the nearest double. From the opening
  balance 100.0 the balance after the spins of a session is \<open>((100.0 - b\<^sub>1) - b\<^sub>2) \<dots> - b\<^sub>n\<close>,
  every subtraction rounded, and the doubles inserted into \<^verbatim>\<open>std::cout\<close> after
  \<^verbatim>\<open>New Balance:\<close> are the intermediate values. Every bet that is read is played: there is no test of the bet against zero or
  against the balance, so the number of spins is \<open>turns\<close> and the balance may go below
  zero. The balance is the exact \<open>100 - \<Sum> b\<^sub>i\<close> when no subtraction rounds.
\<close>

theorem balance_after_spins:
  assumes "\<forall>n k. draws E n k < 4" and "list_all is_finite (in_bets inp)"
  shows "(let n = turns (in_choices inp) (in_bets inp);
              bets = take n (in_bets inp);
              r = play E inp s
          in spins (snd (snd r)) = spins s + n
           \<and> fst (snd r) = foldl dsub (Fin 100) bets
           \<and> reported (cout (snd (snd r))) = reported (cout s) @ balances (Fin 100) bets
           \<and> (\<forall>xs. bets = map Fin xs
                \<and> (\<forall>k \<le> length xs. rnd (100 - sum_list (take k xs)) = Fin (100 - sum_list (take k xs)))
                \<longrightarrow> fst (snd r) = Fin (100 - sum_list xs)))"
  using play_run[OF assms, of s] foldl_dsub_exact[of _ 100]
  by (simp add: Let_def)

lemma no_faults_draws: "\<forall>n k. draws no_faults n k < 4"
  by (simp add: no_faults_def)

theorem balance_after_spins_witness:
  "(\<forall>n k. draws no_faults n k < 4) \<and> list_all is_finite (in_bets two_bets)
   \<and> fst (snd (play no_faults two_bets (start empty_file))) = Fin (- 60)
   \<and> reported (cout (snd (snd (play no_faults two_bets (start empty_file))))) = [Fin 90, Fin (- 60)]"
proof -
  have fin: "list_all is_finite (in_bets two_bets)"
    by code_simp
  have n: "take (turns (in_choices two_bets) (in_bets two_bets)) (in_bets two_bets) = [Fin 10, Fin 150]"
    by code_simp
  have v: "foldl dsub (Fin 100) [Fin 10, Fin 150] = Fin (- 60)"
    "balances (Fin 100) [Fin 10, Fin 150] = [Fin 90, Fin (- 60)]"
    by code_simp+
  have c: "reported (cout (start empty_file)) = []"
    by (simp add: start_def)
  note th = balance_after_spins[OF no_faults_draws fin, of "start empty_file",
      unfolded Let_def n c append_Nil v]
  show ?thesis
    using th fin no_faults_draws by blast
qed

text \<open>
  The exact identity \<open>balance = 100.0 - \<Sum> b\<^sub>i\<close> of C1 fails: four bets of \<open>2\<^sup>-\<^sup>4\<^sup>8\<close>, a quarter
  of the spacing of the doubles below 100, each leave the balance at 100.0, while their sum
  \<open>2\<^sup>-\<^sup>4\<^sup>6\<close> is a full spacing, in exact and in double arithmetic alike.
\<close>

theorem balance_not_100_minus_sum_counterexample:
  "list_all is_finite (in_bets four_small_bets)
   \<and> turns (in_choices four_small_bets) (in_bets four_small_bets) = 4
   \<and> fst (snd (play no_faults four_small_bets (start empty_file))) = Fin 100
   \<and> fst (snd (play no_faults four_small_bets (start empty_file)))
       \<noteq> Fin (100 - (1 / 2 ^ 48 + 1 / 2 ^ 48 + 1 / 2 ^ 48 + 1 / 2 ^ 48))
   \<and> fst (snd (play no_faults four_small_bets (start empty_file)))
       \<noteq> dsub (Fin 100) (foldl dadd (Fin 0) (in_bets four_small_bets))"
proof -
  have fin: "list_all is_finite (in_bets four_small_bets)"
    by code_simp
  have n: "turns (in_choices four_small_bets) (in_bets four_small_bets) = 4"
    by code_simp
  have t: "take 4 (in_bets four_small_bets) = replicate 4 (Fin (1 / 2 ^ 48))"
    by (simp add: four_small_bets_def)
  have v: "foldl dsub (Fin 100) (replicate 4 (Fin (1 / 2 ^ 48))) = Fin 100"
    by code_simp
  have w: "dsub (Fin 100) (foldl dadd (Fin 0) (in_bets four_small_bets)) \<noteq> Fin 100"
    by code_simp
  have bal: "fst (snd (play no_faults four_small_bets (start empty_file))) = Fin 100"
    using play_run(1)[OF no_faults_draws fin, of "start empty_file", unfolded n t v] .
  show ?thesis
    unfolding bal using fin n w by simp
qed

subsection \<open>The reel generator\<close>

lemma advance_begin_glyph: "k < 4 \<Longrightarrow> advance_begin k = Some (glyphs ! k)"
proof -
  assume k: "k < 4"
  have m: "map fst symbols = glyphs" and l: "length symbols = 4"
    by (simp_all add: symbols_def glyphs_def)
  have "fst (symbols ! k) = map fst symbols ! k"
    using k l by simp
  then have "fst (symbols ! k) = glyphs ! k"
    by (simp only: m)
  then show ?thesis using k l by (simp add: advance_begin_def)
qed

lemma upt_3: "[0..<3] = [0, 1, 2]"
  by (simp add: upt_rec)

lemma getSpinResult_eq:
  assumes "\<forall>k. d k < 4"
  shows "getSpinResult d =
     Some [[glyphs ! d 0, glyphs ! d 1, glyphs ! d 2],
           [glyphs ! d 3, glyphs ! d 4, glyphs ! d 5],
           [glyphs ! d 6, glyphs ! d 7, glyphs ! d 8]]"
  using assms by (simp add: getSpinResult_def upt_3 advance_begin_glyph numeral_2_eq_2)

lemma glyph_inj: "i < 4 \<Longrightarrow> j < 4 \<Longrightarrow> glyphs ! i = glyphs ! j \<Longrightarrow> i = j"
proof -
  assume a: "i < 4" "j < 4" "glyphs ! i = glyphs ! j"
  have "distinct glyphs" "length glyphs = 4" by (simp_all add: glyphs_def)
  then show ?thesis using a by (simp add: nth_eq_iff_index_eq)
qed

lemma glyph_surj: "c \<in> set glyphs \<Longrightarrow> \<exists>n<4. glyphs ! n = c"
proof -
  assume "c \<in> set glyphs"
  moreover have "length glyphs = 4" by (simp add: glyphs_def)
  ultimately show ?thesis by (metis in_set_conv_nth)
qed

lemma less_9_cases: "k < (9::nat) \<Longrightarrow> k = 0 \<or> k = 1 \<or> k = 2 \<or> k = 3 \<or> k = 4 \<or> k = 5 \<or> k = 6 \<or> k = 7 \<or> k = 8"
  by arith

lemma grid_of_draws:
  assumes "is_grid g"
  shows "\<exists>d. (\<forall>k. d k < 4) \<and> getSpinResult d = Some g"
proof -
  from assms obtain r0 r1 r2 where g: "g = [r0, r1, r2]"
    by (auto simp: is_grid_def length_Suc_conv numeral_3_eq_3)
  from assms g obtain c0 c1 c2 c3 c4 c5 c6 c7 c8 where
    r: "r0 = [c0, c1, c2]" "r1 = [c3, c4, c5]" "r2 = [c6, c7, c8]"
    by (auto simp: is_grid_def length_Suc_conv numeral_3_eq_3)
  let ?cs = "[c0, c1, c2, c3, c4, c5, c6, c7, c8]"
  have "\<forall>k<9. \<exists>n<4. glyphs ! n = ?cs ! k"
  proof (intro allI impI)
    fix k :: nat assume "k < 9"
    then have "?cs ! k \<in> set glyphs"
      using assms g r less_9_cases[of k] by (auto simp: is_grid_def)
    then show "\<exists>n<4. glyphs ! n = ?cs ! k" by (rule glyph_surj)
  qed
  then obtain f where f: "\<forall>k<9. f k < 4 \<and> glyphs ! f k = ?cs ! k"
    by metis
  define d where "d = (\<lambda>k. if k < 9 then f k else 0)"
  have d4: "\<forall>k. d k < 4" using f by (simp add: d_def)
  have c: "glyphs ! d 0 = c0" "glyphs ! d 1 = c1" "glyphs ! d 2 = c2"
    "glyphs ! d 3 = c3" "glyphs ! d 4 = c4" "glyphs ! d 5 = c5"
    "glyphs ! d 6 = c6" "glyphs ! d 7 = c7" "glyphs ! d 8 = c8"
    using f by (simp_all add: d_def)
  have "getSpinResult d = Some g"
    unfolding getSpinResult_eq[OF d4] g r c by (rule refl)
  with d4 show ?thesis by blast
qed

lemma getSpinResult_cong:
  assumes "\<forall>k<9. d k = d' k"
  shows "getSpinResult d = getSpinResult d'"
proof -
  have "map (\<lambda>i. those (map (\<lambda>j. advance_begin (d (3 * i + j))) [0..<3])) [0..<3] =
        map (\<lambda>i. those (map (\<lambda>j. advance_begin (d' (3 * i + j))) [0..<3])) [0..<3]"
  proof (rule map_cong[OF refl])
    fix i :: nat assume "i \<in> set [0..<3]"
    then have i: "i < 3" by simp
    have "map (\<lambda>j. advance_begin (d (3 * i + j))) [0..<3] =
          map (\<lambda>j. advance_begin (d' (3 * i + j))) [0..<3]"
    proof (rule map_cong[OF refl])
      fix j :: nat assume "j \<in> set [0..<3]"
      then have "3 * i + j < 9" using i by simp
      then show "advance_begin (d (3 * i + j)) = advance_begin (d' (3 * i + j))"
        using assms by simp
    qed
    then show "those (map (\<lambda>j. advance_begin (d (3 * i + j))) [0..<3]) =
               those (map (\<lambda>j. advance_begin (d' (3 * i + j))) [0..<3])"
      by (rule arg_cong)
  qed
  then show ?thesis unfolding getSpinResult_def by (rule arg_cong)
qed

lemma getSpinResult_inj:
  assumes d: "\<forall>k. d k < 4" and d': "\<forall>k. d' k < 4"
    and eq: "getSpinResult d' = getSpinResult d"
  shows "\<forall>k<9. d' k = d k"
proof (intro allI impI)
  fix k :: nat assume k: "k < 9"
  have e: "glyphs ! d' 0 = glyphs ! d 0" "glyphs ! d' 1 = glyphs ! d 1"
      "glyphs ! d' 2 = glyphs ! d 2" "glyphs ! d' 3 = glyphs ! d 3"
      "glyphs ! d' 4 = glyphs ! d 4" "glyphs ! d' 5 = glyphs ! d 5"
      "glyphs ! d' 6 = glyphs ! d 6" "glyphs ! d' 7 = glyphs ! d 7"
      "glyphs ! d' 8 = glyphs ! d 8"
    using eq unfolding getSpinResult_eq[OF d] getSpinResult_eq[OF d'] by simp_all
  have "glyphs ! d' k = glyphs ! d k"
    using less_9_cases[OF k] e by (elim disjE) simp_all
  then show "d' k = d k" using d d' glyph_inj by blast
qed

lemma draw_of_bounded: "set ds \<subseteq> {0..<4} \<Longrightarrow> draw_of ds k < 4"
  by (auto simp: draw_of_def subset_iff)

lemma card_draws: "card {ds::nat list. length ds = 9 \<and> set ds \<subseteq> {0..<4}} = 4 ^ 9"
proof -
  have "{ds::nat list. length ds = 9 \<and> set ds \<subseteq> {0..<4}} = {ds. set ds \<subseteq> {0..<4} \<and> length ds = 9}"
    by blast
  then show ?thesis
    by (simp only: card_lists_length_eq[OF finite_atLeastLessThan] card_atLeastLessThan) simp
qed

lemma one_draw_per_grid:
  assumes "is_grid g"
  shows "card {ds. length ds = 9 \<and> set ds \<subseteq> {0..<4} \<and> getSpinResult (draw_of ds) = Some g} = 1"
proof -
  from grid_of_draws[OF assms] obtain d where d: "\<forall>k. d k < 4" "getSpinResult d = Some g"
    by blast
  let ?ds = "map d [0..<9]"
  have len: "length ?ds = 9" by simp
  have sub: "set ?ds \<subseteq> {0..<4}" using d(1) by auto
  have agree: "\<forall>k<9. draw_of ?ds k = d k" by (simp add: draw_of_def)
  have g: "getSpinResult (draw_of ?ds) = Some g"
    using getSpinResult_cong[OF agree] d(2) by simp
  have uniq: "ds = ?ds"
    if a: "length ds = 9" "set ds \<subseteq> {0..<4}" "getSpinResult (draw_of ds) = Some g" for ds
  proof (rule nth_equalityI)
    show "length ds = length ?ds" using a(1) by simp
    fix k assume "k < length ds"
    then have k: "k < 9" using a(1) by simp
    have b: "\<forall>k. draw_of ds k < 4" using draw_of_bounded[OF a(2)] by blast
    have "getSpinResult (draw_of ds) = getSpinResult d" using a(3) d(2) by simp
    from getSpinResult_inj[OF d(1) b this] k have "draw_of ds k = d k" by blast
    then show "ds ! k = ?ds ! k" using k a(1) by (simp add: draw_of_def)
  qed
  have "{ds. length ds = 9 \<and> set ds \<subseteq> {0..<4} \<and> getSpinResult (draw_of ds) = Some g} = {?ds}"
    using len sub g uniq by blast
  then show ?thesis by simp
qed

lemma getSpinResult_is_grid:
  assumes "\<forall>k. d k < 4"
  shows "\<exists>g. getSpinResult d = Some g \<and> is_grid g"
proof -
  have len: "length glyphs = 4" by (simp add: glyphs_def)
  have mem: "glyphs ! d k \<in> set glyphs" for k
    using assms nth_mem[of "d k" glyphs] by (simp add: len)
  show ?thesis
    unfolding getSpinResult_eq[OF assms] is_grid_def using mem by simp
qed

subsection \<open>The distribution of a grid\<close>

lemma card_lists_nth:
  assumes "finite A" and "v \<in> A"
  shows "k < n \<Longrightarrow> card {xs. length xs = n \<and> set xs \<subseteq> A \<and> xs ! k = v} = card A ^ (n - 1)"
proof (induction n arbitrary: k)
  case 0
  then show ?case by simp
next
  case (Suc n)
  let ?L = "{xs. set xs \<subseteq> A \<and> length xs = n}"
  show ?case
  proof (cases k)
    case 0
    have "{xs. length xs = Suc n \<and> set xs \<subseteq> A \<and> xs ! 0 = v} = (\<lambda>xs. v # xs) ` ?L"
    proof (intro set_eqI iffI)
      fix xs assume "xs \<in> {xs. length xs = Suc n \<and> set xs \<subseteq> A \<and> xs ! 0 = v}"
      then obtain y ys where "xs = y # ys" "length ys = n" "set xs \<subseteq> A" "xs ! 0 = v"
        by (auto simp: length_Suc_conv)
      then show "xs \<in> (\<lambda>xs. v # xs) ` ?L" by auto
    next
      fix xs assume "xs \<in> (\<lambda>xs. v # xs) ` ?L"
      then show "xs \<in> {xs. length xs = Suc n \<and> set xs \<subseteq> A \<and> xs ! 0 = v}"
        using assms(2) by auto
    qed
    moreover have "card ((\<lambda>xs. v # xs) ` ?L) = card ?L"
      by (rule card_image) (simp add: inj_on_def)
    ultimately show ?thesis
      using 0 by (simp add: card_lists_length_eq[OF assms(1)])
  next
    case (Suc k')
    with Suc.prems have k': "k' < n" by simp
    let ?S = "{xs. length xs = n \<and> set xs \<subseteq> A \<and> xs ! k' = v}"
    have "{xs. length xs = Suc n \<and> set xs \<subseteq> A \<and> xs ! Suc k' = v} = (\<lambda>(x, xs). x # xs) ` (A \<times> ?S)"
    proof (intro set_eqI iffI)
      fix xs assume "xs \<in> {xs. length xs = Suc n \<and> set xs \<subseteq> A \<and> xs ! Suc k' = v}"
      then obtain y ys where "xs = y # ys" "length ys = n" "set xs \<subseteq> A" "xs ! Suc k' = v"
        by (auto simp: length_Suc_conv)
      then have "y \<in> A" "ys \<in> ?S" "xs = (\<lambda>(x, xs). x # xs) (y, ys)" by auto
      then show "xs \<in> (\<lambda>(x, xs). x # xs) ` (A \<times> ?S)" by blast
    next
      fix xs assume "xs \<in> (\<lambda>(x, xs). x # xs) ` (A \<times> ?S)"
      then show "xs \<in> {xs. length xs = Suc n \<and> set xs \<subseteq> A \<and> xs ! Suc k' = v}"
        by auto
    qed
    moreover have "card ((\<lambda>(x, xs). x # xs) ` (A \<times> ?S)) = card (A \<times> ?S)"
      by (rule card_image) (auto simp: inj_on_def)
    moreover have "card (A \<times> ?S) = card A * card A ^ (n - 1)"
      using Suc.IH[OF k'] by (simp add: card_cartesian_product)
    moreover have "card A * card A ^ (n - 1) = card A ^ n"
      using k' by (cases n) simp_all
    ultimately show ?thesis using Suc by simp
  qed
qed

lemma length_symbols: "length symbols = 4"
  by (simp add: symbols_def)

lemma set_draw_space: "set draw_space = {ds. length ds = 9 \<and> set ds \<subseteq> {0..<4}}"
  by (simp add: draw_space_def set_n_lists length_symbols)

lemma distinct_draw_space: "distinct draw_space"
  by (simp add: draw_space_def distinct_n_lists)

lemma dist_quarter: "n < 4 \<Longrightarrow> dist n = 1 / 4"
  by (simp add: dist_def uniform_int_distribution_def length_symbols)

lemma draw_prob_uniform: "set ds \<subseteq> {0..<4} \<Longrightarrow> draw_prob ds = (1 / 4) ^ length ds"
  unfolding draw_prob_def by (induction ds) (simp_all add: dist_quarter)

lemma prob_count:
  "prob A = of_nat (card {ds. length ds = 9 \<and> set ds \<subseteq> {0..<4} \<and> A ds}) / 4 ^ 9"
proof -
  let ?S = "{ds. length ds = 9 \<and> set ds \<subseteq> {0..<4} \<and> A ds}"
  have s: "set (filter A draw_space) = ?S"
    using set_draw_space by auto
  have "prob A = sum draw_prob (set (filter A draw_space))"
    unfolding prob_def
    by (rule sum_list_distinct_conv_sum_set) (simp add: distinct_draw_space)
  also have "\<dots> = sum (\<lambda>ds. (1 / 4) ^ 9) ?S"
    unfolding s by (rule sum.cong) (auto simp: draw_prob_uniform)
  also have "\<dots> = of_nat (card ?S) / 4 ^ 9"
    by (simp add: power_one_over)
  finally show ?thesis .
qed

lemma cell_draw:
  assumes "length ds = 9" and "set ds \<subseteq> {0..<4}" and "i < 3" and "j < 3"
  shows "cell ds i j = Some (glyphs ! (ds ! (3 * i + j)))"
proof -
  have b: "\<forall>k. draw_of ds k < 4" using draw_of_bounded[OF assms(2)] by blast
  have ij: "(i = 0 \<or> i = 1 \<or> i = 2) \<and> (j = 0 \<or> j = 1 \<or> j = 2)" using assms(3,4) by arith
  have k: "3 * i + j < 9" using assms(3,4) by simp
  have "cell ds i j = Some (glyphs ! draw_of ds (3 * i + j))"
    unfolding cell_def getSpinResult_eq[OF b] using ij by (auto simp: numeral_2_eq_2)
  then show ?thesis using k assms(1) by (simp add: draw_of_def)
qed

lemma prob_cell:
  assumes "i < 3" and "j < 3" and "c \<in> set glyphs"
  shows "prob (\<lambda>ds. cell ds i j = Some c) = 1 / 4"
proof -
  from glyph_surj[OF assms(3)] obtain n where n: "n < 4" "glyphs ! n = c" by blast
  have k: "3 * i + j < 9" using assms(1,2) by simp
  have "{ds. length ds = 9 \<and> set ds \<subseteq> {0..<4} \<and> cell ds i j = Some c} =
        {ds. length ds = 9 \<and> set ds \<subseteq> {0..<4} \<and> ds ! (3 * i + j) = n}"
  proof (intro set_eqI iffI)
    fix ds assume "ds \<in> {ds. length ds = 9 \<and> set ds \<subseteq> {0..<4} \<and> cell ds i j = Some c}"
    then have l: "length ds = 9" and s: "set ds \<subseteq> {0..<4}" and "cell ds i j = Some c"
      by simp_all
    then have e: "glyphs ! (ds ! (3 * i + j)) = glyphs ! n"
      using cell_draw[OF l s assms(1,2)] n(2) by simp
    have "ds ! (3 * i + j) \<in> set ds" using k l by simp
    then have "ds ! (3 * i + j) < 4" using s by auto
    from glyph_inj[OF this n(1) e] l s
    show "ds \<in> {ds. length ds = 9 \<and> set ds \<subseteq> {0..<4} \<and> ds ! (3 * i + j) = n}" by simp
  next
    fix ds assume "ds \<in> {ds. length ds = 9 \<and> set ds \<subseteq> {0..<4} \<and> ds ! (3 * i + j) = n}"
    then have l: "length ds = 9" and s: "set ds \<subseteq> {0..<4}" and "ds ! (3 * i + j) = n"
      by simp_all
    then have "cell ds i j = Some c"
      using cell_draw[OF l s assms(1,2)] n(2) by simp
    with l s show "ds \<in> {ds. length ds = 9 \<and> set ds \<subseteq> {0..<4} \<and> cell ds i j = Some c}" by simp
  qed
  moreover have "card {ds::nat list. length ds = 9 \<and> set ds \<subseteq> {0..<4} \<and> ds ! (3 * i + j) = n} = 4 ^ 8"
    using card_lists_nth[of "{0..<4}" n "3 * i + j" 9] n(1) k by simp
  ultimately show ?thesis
    by (simp add: prob_count)
qed

lemma prob_total: "prob (\<lambda>ds. True) = 1"
  using card_draws by (simp add: prob_count)

lemma prob_grid:
  assumes "is_grid g"
  shows "prob (\<lambda>ds. getSpinResult (draw_of ds) = Some g) = 1 / 4 ^ 9"
  by (simp add: prob_count one_draw_per_grid[OF assms])

lemma grid_cell_glyph:
  assumes "is_grid g" and "i < 3" and "j < 3"
  shows "g ! i ! j \<in> set glyphs"
proof -
  from assms(1,2) have "g ! i \<in> set g" by (simp add: is_grid_def)
  with assms(1) have r: "length (g ! i) = 3" "\<forall>c \<in> set (g ! i). c \<in> set glyphs"
    by (simp_all add: is_grid_def list_all_iff)
  from r(1) assms(3) have "g ! i ! j \<in> set (g ! i)" by simp
  with r(2) show ?thesis by blast
qed

lemma prob_grid_product:
  assumes "is_grid g"
  shows "prob (\<lambda>ds. getSpinResult (draw_of ds) = Some g) =
         (\<Prod>i<3. \<Prod>j<3. prob (\<lambda>ds. cell ds i j = Some (g ! i ! j)))"
proof -
  have "(\<Prod>i<3. \<Prod>j<3. prob (\<lambda>ds. cell ds i j = Some (g ! i ! j))) = (\<Prod>i<(3::nat). \<Prod>j<(3::nat). (1 / 4 :: rat))"
    by (intro prod.cong refl prob_cell grid_cell_glyph[OF assms]) simp_all
  also have "\<dots> = 1 / 4 ^ 9" by (simp add: power_one_over)
  finally show ?thesis using prob_grid[OF assms] by simp
qed

lemma grid_iff_cells:
  assumes "length ds = 9" and "set ds \<subseteq> {0..<4}" and "is_grid g"
  shows "getSpinResult (draw_of ds) = Some g \<longleftrightarrow> (\<forall>i<3. \<forall>j<3. cell ds i j = Some (g ! i ! j))"
proof
  assume "getSpinResult (draw_of ds) = Some g"
  then show "\<forall>i<3. \<forall>j<3. cell ds i j = Some (g ! i ! j)" by (simp add: cell_def)
next
  assume a: "\<forall>i<3. \<forall>j<3. cell ds i j = Some (g ! i ! j)"
  have b: "\<forall>k. draw_of ds k < 4" using draw_of_bounded[OF assms(2)] by blast
  obtain g' where g': "getSpinResult (draw_of ds) = Some g'" "is_grid g'"
    using getSpinResult_is_grid[OF b] by blast
  have "g' ! i ! j = g ! i ! j" if "i < 3" "j < 3" for i j
    using a that g'(1) by (auto simp: cell_def)
  then have "\<forall>i<3. g' ! i = g ! i"
    using g'(2) assms(3) by (auto simp: is_grid_def list_all_length intro!: nth_equalityI)
  then have "g' = g"
    using g'(2) assms(3) by (auto simp: is_grid_def intro!: nth_equalityI)
  with g'(1) show "getSpinResult (draw_of ds) = Some g" by simp
qed

lemma prob_cong:
  assumes "\<And>ds. length ds = 9 \<Longrightarrow> set ds \<subseteq> {0..<4} \<Longrightarrow> A ds = B ds"
  shows "prob A = prob B"
proof -
  have "{ds. length ds = 9 \<and> set ds \<subseteq> {0..<4} \<and> A ds} = {ds. length ds = 9 \<and> set ds \<subseteq> {0..<4} \<and> B ds}"
    using assms by blast
  then show ?thesis by (simp only: prob_count)
qed

lemma prob_never:
  assumes "\<And>ds. length ds = 9 \<Longrightarrow> set ds \<subseteq> {0..<4} \<Longrightarrow> \<not> A ds"
  shows "prob A = 0"
proof -
  have "{ds. length ds = 9 \<and> set ds \<subseteq> {0..<4} \<and> A ds} = {}"
    using assms by blast
  then have "card {ds. length ds = 9 \<and> set ds \<subseteq> {0..<4} \<and> A ds} = 0"
    by (simp only: card.empty)
  then show ?thesis by (simp add: prob_count)
qed

lemma prob_in_range: "prob (\<lambda>ds. \<forall>k. draw_of ds k < 4) = 1"
proof -
  have "prob (\<lambda>ds. \<forall>k. draw_of ds k < 4) = prob (\<lambda>ds. True)"
    by (rule prob_cong) (simp add: draw_of_bounded)
  then show ?thesis by (simp add: prob_total)
qed

lemma cell_in_glyphs:
  assumes "length ds = 9" and "set ds \<subseteq> {0..<4}" and "i < 3" and "j < 3"
    and "cell ds i j = Some c"
  shows "c \<in> set glyphs"
proof -
  have k: "3 * i + j < 9" using assms(3,4) by simp
  then have "ds ! (3 * i + j) \<in> set ds" using assms(1) by simp
  then have "ds ! (3 * i + j) < length glyphs" using assms(2) by (auto simp: glyphs_def)
  then have "glyphs ! (ds ! (3 * i + j)) \<in> set glyphs" by (rule nth_mem)
  then show ?thesis using cell_draw[OF assms(1-4)] assms(5) by simp
qed

lemma prob_cells:
  "prob (\<lambda>ds. \<forall>i<3. \<forall>j<3. cell ds i j = Some (f i j)) =
     (\<Prod>i<3. \<Prod>j<3. prob (\<lambda>ds. cell ds i j = Some (f i j)))"
proof (cases "\<forall>i<3. \<forall>j<3. f i j \<in> set glyphs")
  case True
  let ?g = "map (\<lambda>i. map (f i) [0..<3]) [0..<3]"
  have g: "is_grid ?g"
    using True by (simp add: is_grid_def list_all_iff)
  have c: "?g ! i ! j = f i j" if "i < 3" "j < 3" for i j
    using that by simp
  have "prob (\<lambda>ds. \<forall>i<3. \<forall>j<3. cell ds i j = Some (f i j)) =
        prob (\<lambda>ds. getSpinResult (draw_of ds) = Some ?g)"
  proof (rule prob_cong)
    fix ds :: "nat list" assume l: "length ds = 9" and s: "set ds \<subseteq> {0..<4}"
    show "(\<forall>i<3. \<forall>j<3. cell ds i j = Some (f i j)) = (getSpinResult (draw_of ds) = Some ?g)"
      unfolding grid_iff_cells[OF l s g] using c by simp
  qed
  also have "\<dots> = (\<Prod>i<3. \<Prod>j<3. prob (\<lambda>ds. cell ds i j = Some (?g ! i ! j)))"
    by (rule prob_grid_product[OF g])
  also have "\<dots> = (\<Prod>i<3. \<Prod>j<3. prob (\<lambda>ds. cell ds i j = Some (f i j)))"
    by (intro prod.cong refl) (simp add: c)
  finally show ?thesis .
next
  case False
  then obtain i j where ij: "i < 3" "j < 3" "f i j \<notin> set glyphs" by blast
  have z: "prob (\<lambda>ds. cell ds i j = Some (f i j)) = 0"
    by (rule prob_never) (use ij cell_in_glyphs in blast)
  have "(\<Prod>j<3. prob (\<lambda>ds. cell ds i j = Some (f i j))) = 0"
    using ij(2) z by (simp add: prod_zero_iff) blast
  then have r: "(\<Prod>i<3. \<Prod>j<3. prob (\<lambda>ds. cell ds i j = Some (f i j))) = 0"
    using ij(1) by (simp only: prod_zero_iff[OF finite_lessThan]) blast
  have "prob (\<lambda>ds. \<forall>i<3. \<forall>j<3. cell ds i j = Some (f i j)) = 0"
  proof (rule prob_never)
    fix ds :: "nat list" assume l: "length ds = 9" and s: "set ds \<subseteq> {0..<4}"
    show "\<not> (\<forall>i<3. \<forall>j<3. cell ds i j = Some (f i j))"
      using cell_in_glyphs[OF l s ij(1,2)] ij by blast
  qed
  with r show ?thesis by simp
qed

text \<open>
  Claim C2. Whatever indices in \<open>0 .. 3\<close> the distribution object returns, \<^verbatim>\<open>getSpinResult\<close>
  returns a grid of three rows of three cells, nine symbols, each one of the glyphs A, B,
  C, D. The cell in row \<open>i\<close> and column \<open>j\<close> is the glyph at the index of draw number
  \<open>3 i + j\<close> and of no other draw, and the grid determines the nine draws. Under the
  distribution that \<^verbatim>\<open>std::uniform_int_distribution\<close> gives the draws, the draws are in
  \<open>0 .. 3\<close> with probability one, every cell shows each of the four glyphs with probability
  one quarter, and the nine cells are independent: the probability that they show nine
  given symbols is the product of the nine probabilities that a cell shows its symbol.
\<close>

theorem getSpinResult_grid:
  assumes "\<forall>k. d k < 4"
  shows "(\<exists>g. getSpinResult d = Some g \<and> is_grid g
            \<and> length (concat g) = 9
            \<and> (\<forall>i<3. \<forall>j<3. g ! i ! j = glyphs ! d (3 * i + j))
            \<and> (\<forall>d'. (\<forall>k. d' k < 4) \<and> getSpinResult d' = Some g \<longrightarrow> (\<forall>k<9. d' k = d k)))
         \<and> prob (\<lambda>ds. \<forall>k. draw_of ds k < 4) = 1
         \<and> (\<forall>i<3. \<forall>j<3. \<forall>c \<in> set glyphs. prob (\<lambda>ds. cell ds i j = Some c) = 1 / 4)
         \<and> (\<forall>f. prob (\<lambda>ds. \<forall>i<3. \<forall>j<3. cell ds i j = Some (f i j)) =
                  (\<Prod>i<3. \<Prod>j<3. prob (\<lambda>ds. cell ds i j = Some (f i j))))"
proof -
  let ?g = "[[glyphs ! d 0, glyphs ! d 1, glyphs ! d 2],
           [glyphs ! d 3, glyphs ! d 4, glyphs ! d 5],
           [glyphs ! d 6, glyphs ! d 7, glyphs ! d 8]]"
  have g: "getSpinResult d = Some ?g" by (rule getSpinResult_eq[OF assms])
  have len: "length glyphs = 4" by (simp add: glyphs_def)
  have mem: "glyphs ! d k \<in> set glyphs" for k
    using assms nth_mem[of "d k" glyphs] by (simp add: len)
  have grid: "is_grid ?g"
    unfolding is_grid_def using mem by simp
  have cells: "\<forall>i<3. \<forall>j<3. ?g ! i ! j = glyphs ! d (3 * i + j)"
  proof (intro allI impI)
    fix i j :: nat assume "i < 3" "j < 3"
    then have "(i = 0 \<or> i = 1 \<or> i = 2) \<and> (j = 0 \<or> j = 1 \<or> j = 2)" by arith
    then show "?g ! i ! j = glyphs ! d (3 * i + j)" by (auto simp: numeral_2_eq_2)
  qed
  have inj: "\<forall>d'. (\<forall>k. d' k < 4) \<and> getSpinResult d' = Some ?g \<longrightarrow> (\<forall>k<9. d' k = d k)"
  proof (rule allI, rule impI)
    fix d' assume a: "(\<forall>k. d' k < 4) \<and> getSpinResult d' = Some ?g"
    then have "getSpinResult d' = getSpinResult d" using g by simp
    from getSpinResult_inj[OF assms conjunct1[OF a] this] show "\<forall>k<9. d' k = d k"
      by blast
  qed
  have nine: "length (concat ?g) = 9" by simp
  have ex: "\<exists>g. getSpinResult d = Some g \<and> is_grid g
            \<and> length (concat g) = 9
            \<and> (\<forall>i<3. \<forall>j<3. g ! i ! j = glyphs ! d (3 * i + j))
            \<and> (\<forall>d'. (\<forall>k. d' k < 4) \<and> getSpinResult d' = Some g \<longrightarrow> (\<forall>k<9. d' k = d k))"
    by (rule exI[of _ ?g]) (intro conjI g grid nine cells inj)
  have marg: "\<forall>i<3. \<forall>j<3. \<forall>c \<in> set glyphs. prob (\<lambda>ds. cell ds i j = Some c) = 1 / 4"
    using prob_cell by blast
  have joint: "\<forall>f. prob (\<lambda>ds. \<forall>i<3. \<forall>j<3. cell ds i j = Some (f i j)) =
                  (\<Prod>i<3. \<Prod>j<3. prob (\<lambda>ds. cell ds i j = Some (f i j)))"
    using prob_cells by blast
  show ?thesis
    by (intro conjI ex prob_in_range marg joint)
qed

theorem getSpinResult_grid_witness:
  "(\<forall>k. (k + 1) mod 4 < (4::nat))
   \<and> getSpinResult (\<lambda>k. (k + 1) mod 4) = Some [''BCD'', ''ABC'', ''DAB'']
   \<and> is_grid [''BCD'', ''ABC'', ''DAB'']
   \<and> prob (\<lambda>ds. cell ds 0 0 = Some (CHR ''B'')) = 1 / 4
   \<and> prob (\<lambda>ds. \<forall>i<3. \<forall>j<3. cell ds i j = Some ([''BCD'', ''ABC'', ''DAB''] ! i ! j)) =
       (\<Prod>i<3. \<Prod>j<3. prob (\<lambda>ds. cell ds i j = Some ([''BCD'', ''ABC'', ''DAB''] ! i ! j)))"
proof -
  have d: "\<forall>k. (\<lambda>k. (k + 1) mod 4) k < (4::nat)" by simp
  have v: "getSpinResult (\<lambda>k. (k + 1) mod 4) = Some [''BCD'', ''ABC'', ''DAB'']"
    by code_simp
  note t = getSpinResult_grid[OF d]
  from t obtain g where
    g: "getSpinResult (\<lambda>k. (k + 1) mod 4) = Some g" "is_grid g"
    by blast
  from g(1) v have e: "g = [''BCD'', ''ABC'', ''DAB'']" by simp
  have gr: "is_grid [''BCD'', ''ABC'', ''DAB'']" using g(2) unfolding e .
  have b: "CHR ''B'' \<in> set glyphs" by (simp add: glyphs_def)
  from t have "\<forall>i<3. \<forall>j<3. \<forall>c \<in> set glyphs. prob (\<lambda>ds. cell ds i j = Some c) = 1 / 4"
    by blast
  with b have m: "prob (\<lambda>ds. cell ds 0 0 = Some (CHR ''B'')) = 1 / 4" by simp
  from t have "\<forall>f. prob (\<lambda>ds. \<forall>i<3. \<forall>j<3. cell ds i j = Some (f i j)) =
                  (\<Prod>i<3. \<Prod>j<3. prob (\<lambda>ds. cell ds i j = Some (f i j)))"
    by blast
  then have j: "prob (\<lambda>ds. \<forall>i<3. \<forall>j<3. cell ds i j = Some ([''BCD'', ''ABC'', ''DAB''] ! i ! j)) =
       (\<Prod>i<3. \<Prod>j<3. prob (\<lambda>ds. cell ds i j = Some ([''BCD'', ''ABC'', ''DAB''] ! i ! j)))"
    by (rule spec[where x = "\<lambda>i j. [''BCD'', ''ABC'', ''DAB''] ! i ! j"])
  have d': "\<forall>k. (k + 1) mod 4 < (4::nat)" by simp
  show ?thesis
    by (intro conjI d' v gr m j)
qed

subsection \<open>The statements on the store\<close>

lemma fold_max_ge: "sq \<le> fold max ids (sq::int)"
  by (induction ids arbitrary: sq) (auto intro: order_trans[OF max.cobounded2])

lemma fold_max_mem: "i \<in> set ids \<Longrightarrow> i \<le> fold max ids (sq::int)"
proof (induction ids arbitrary: sq)
  case Nil
  then show ?case by simp
next
  case (Cons a ids)
  show ?case
  proof (cases "i = a")
    case True
    have "a \<le> max a sq" by simp
    also have "\<dots> \<le> fold max ids (max a sq)" by (rule fold_max_ge)
    finally show ?thesis using True by simp
  next
    case False
    with Cons show ?thesis by simp
  qed
qed

lemma fold_max_bounded: "\<forall>i \<in> set ids. i \<le> sq \<Longrightarrow> fold max ids (sq::int) = sq"
  by (induction ids) (simp_all add: max_def)

lemma fold_max_snoc: "fold max (ids @ [fold max ids sq + 1]) (fold max ids (sq::int) + 1) = fold max ids sq + 1"
proof -
  have "\<forall>i \<in> set (ids @ [fold max ids sq + 1]). i \<le> fold max ids sq + 1"
    using fold_max_mem[of _ ids sq] by fastforce
  then show ?thesis by (rule fold_max_bounded)
qed

lemma column_int_id: "- (2 ^ 31) \<le> v \<Longrightarrow> v < 2 ^ 31 \<Longrightarrow> column_int v = v"
  by (simp add: column_int_def)

lemma updateBalance_players:
  "players (db (updateBalance E p b s)) =
     (if fault E (calls s) then players (db s)
      else map_option (\<lambda>t. t\<lparr>rows := map (set_balance p (bind_double b)) (rows t)\<rparr>) (players (db s)))"
  by (cases "players (db s)")
     (auto simp: updateBalance_def sqlite_call_def sql_update_balance_def set_balance_def)

lemma updateBalance_rest [simp]:
  "spin_history (db (updateBalance E p b s)) = spin_history (db s)"
  "cerr (updateBalance E p b s) =
     cerr s @ (if fault E (calls s) \<or> players (db s) = None then [Str ''Error updating balance.'', Endl] else [])"
  by (cases "players (db s)"; simp add: updateBalance_def sqlite_call_def sql_update_balance_def)+

lemma saveSpinHistory_players [simp]:
  "players (db (saveSpinHistory E p b w bal s)) = players (db s)"
  by (auto simp: saveSpinHistory_def sqlite_call_def sql_insert_spin_def
           split: option.splits prod.splits)

lemma saveSpinHistory_history:
  "spin_history (db (saveSpinHistory E p b w bal s)) =
     (if fault E (calls s) then spin_history (db s)
      else case (spin_history (db s), bind_double b, bind_double w, bind_double bal) of
             (Some t, Some b', Some w', Some bal') \<Rightarrow>
               (case next_rowid (map h_id (rows t)) (seq t) of
                  None \<Rightarrow> Some t
                | Some i \<Rightarrow> Some \<lparr>rows = rows t @ [\<lparr>h_id = i, h_player_id = p, h_bet = b',
                                 h_winnings = w', h_balance = bal'\<rparr>], seq = i\<rparr>)
           | (h, _) \<Rightarrow> h)"
  by (auto simp: saveSpinHistory_def sqlite_call_def sql_insert_spin_def
           split: option.splits prod.splits)

lemma addPlayer_history [simp]:
  "spin_history (db (addPlayer E n a c s)) = spin_history (db s)"
  by (auto simp: addPlayer_def sqlite_call_def sql_insert_player_def split: option.splits)

lemma addPlayer_players:
  "players (db (addPlayer E n a c s)) =
     (if fault E (calls s) then players (db s)
      else case players (db s) of
             None \<Rightarrow> None
           | Some t \<Rightarrow>
               (case next_rowid (map p_id (rows t)) (seq t) of
                  None \<Rightarrow> Some t
                | Some i \<Rightarrow> Some \<lparr>rows = rows t @ [\<lparr>p_id = i, p_name = c_str n, p_age = a,
                                 p_card = c_str c, p_balance = Some (Fin 0)\<rparr>], seq = i\<rparr>))"
  by (auto simp: addPlayer_def sqlite_call_def sql_insert_player_def split: option.splits)

lemma getPlayerID_value:
  "fst (getPlayerID E n a c s) =
     (if fault E (calls s) then - 1
      else case players (db s) of
             None \<Rightarrow> - 1
           | Some t \<Rightarrow>
               (case filter (matches (c_str n) a (c_str c)) (rows t) of
                  [] \<Rightarrow> - 1
                | r # _ \<Rightarrow> column_int (p_id r)))"
  by (auto simp: getPlayerID_def sqlite_call_def sql_select_id_def split: option.splits list.splits)

lemma getPlayerID_eq:
  "getPlayerID E n a c s = (fst (getPlayerID E n a c s), s\<lparr>calls := Suc (calls s)\<rparr>)"
  using getPlayerID_state[of E n a c s] by (cases "getPlayerID E n a c s") simp

lemma matches_set_balance [simp]: "matches n a c (set_balance i v r) = matches n a c r"
  by (simp add: matches_def set_balance_def)

lemma p_id_set_balance [simp]: "p_id (set_balance i v r) = p_id r"
  by (simp add: set_balance_def)

lemma set_balance_twice [simp]: "set_balance i v (set_balance i w r) = set_balance i v r"
  by (simp add: set_balance_def)

lemma set_balance_other: "p_id r \<noteq> i \<Longrightarrow> set_balance i v r = r"
  by (simp add: set_balance_def)

lemma select_set_balance:
  "map p_id (filter (matches n a c) (map (set_balance i v) rs)) = map p_id (filter (matches n a c) rs)"
  by (induction rs) simp_all

lemma select_players:
  "players st' = players st \<Longrightarrow> sql_select_id n a c st' = sql_select_id n a c st"
  by (simp add: sql_select_id_def)

lemma select_updateBalance [simp]:
  "sql_select_id n a c (db (updateBalance E p b s)) = sql_select_id n a c (db s)"
  by (cases "players (db s)") (simp_all add: sql_select_id_def updateBalance_players select_set_balance)

lemma select_saveSpinHistory [simp]:
  "sql_select_id n a c (db (saveSpinHistory E p b w bal s)) = sql_select_id n a c (db s)"
  by (simp add: sql_select_id_def)

lemma db_spin_once:
  "db (snd (spin_once E p bet g (bal, s))) =
     db (saveSpinHistory E p bet (Fin 0) (dadd bal (dsub (Fin 0) bet))
          (updateBalance E p (dadd bal (dsub (Fin 0) bet))
            (displaySpinResult g (s\<lparr>spins := Suc (spins s)\<rparr>))))"
  by (simp add: spin_once_def Let_def)

lemma select_spin_once [simp]:
  "sql_select_id n a c (db (snd (spin_once E p bet g (bal, s)))) = sql_select_id n a c (db s)"
  by (simp add: db_spin_once)


text \<open>
  An invariant of the balance and the process state that printing and every spin keep is
  kept by the loop, for bets that all satisfy \<open>Q\<close>.
\<close>

lemma spin_loop_invariant:
  assumes pr: "\<And>xs bal s. P bal s \<Longrightarrow> P bal (print xs s)"
    and step: "\<And>bet g bal s. Q bet \<Longrightarrow> P bal s \<Longrightarrow>
                 P (fst (spin_once E p bet g (bal, s))) (snd (spin_once E p bet g (bal, s)))"
  shows "list_all Q bets \<Longrightarrow> P bal s \<Longrightarrow>
         P (fst (snd (spin_loop E p cs bets (bal, s)))) (snd (snd (spin_loop E p cs bets (bal, s))))"
proof (induction cs arbitrary: bets bal s)
  case Nil
  then show ?case by (simp add: pr)
next
  case (Cons c cs)
  let ?s1 = "print [Str ''Press 'p' to play, 'q' to quit: ''] s"
  let ?s2 = "print [Str ''Enter your bet amount: ''] ?s1"
  have p1: "P bal ?s1" using Cons.prems(2) by (rule pr)
  then have p2: "P bal ?s2" by (rule pr)
  show ?case
  proof (cases "c = CHR ''q''")
    case True
    with p1 show ?thesis by simp
  next
    case False
    show ?thesis
    proof (cases bets)
      case Nil
      with False p2 show ?thesis by simp
    next
      case (Cons bet bets')
      show ?thesis
      proof (cases "getSpinResult (draws E (spins s))")
        case None
        with False Cons p2 show ?thesis by simp
      next
        case (Some g)
        obtain bal1 s1 where so: "spin_once E p bet g (bal, ?s2) = (bal1, s1)"
          by (cases "spin_once E p bet g (bal, ?s2)")
        have q: "Q bet" "list_all Q bets'" using Cons.prems(1) Cons by simp_all
        have "P bal1 s1" using step[OF q(1) p2, of g] so by simp
        then have "P (fst (snd (spin_loop E p cs bets' (bal1, s1))))
                     (snd (snd (spin_loop E p cs bets' (bal1, s1))))"
          by (rule Cons.IH[OF q(2)])
        then show ?thesis
          using False Cons Some so by (simp add: Let_def)
      qed
    qed
  qed
qed

lemma select_spin_loop:
  "sql_select_id n a c (db (snd (snd (spin_loop E p cs bets (bal, s))))) = sql_select_id n a c (db s)"
proof -
  have la: "list_all (\<lambda>_. True) bets" by (simp add: list_all_iff)
  show ?thesis
    by (rule spin_loop_invariant[where Q = "\<lambda>_. True"
          and P = "\<lambda>_ s'. sql_select_id n a c (db s') = sql_select_id n a c (db s)", OF _ _ la])
       simp_all
qed

lemma getPlayerID_select:
  "fst (getPlayerID E n a c s) =
     (if fault E (calls s) then - 1
      else case sql_select_id (c_str n) a (c_str c) (db s) of
             Some (v # _) \<Rightarrow> column_int v
           | _ \<Rightarrow> - 1)"
  by (auto simp: getPlayerID_def sqlite_call_def split: option.splits list.splits)

lemma resolve_found:
  assumes "fst (getPlayerID E n a c s) \<noteq> - 1"
  shows "resolve E n a c s = (fst (getPlayerID E n a c s), s\<lparr>calls := Suc (calls s)\<rparr>)"
proof -
  obtain p s1 where g: "getPlayerID E n a c s = (p, s1)"
    by (cases "getPlayerID E n a c s")
  have s1: "s1 = s\<lparr>calls := Suc (calls s)\<rparr>"
    using getPlayerID_state[of E n a c s] g by simp
  show ?thesis
    using assms by (simp add: resolve_def g s1)
qed

lemma resolve_created:
  assumes "fst (getPlayerID E n a c s) = - 1"
  shows "resolve E n a c s =
     getPlayerID E n a c
       (addPlayer E n a c
         (print [Str ''New player detected. Adding to database.'', Endl]
            (s\<lparr>calls := Suc (calls s)\<rparr>)))"
proof -
  obtain p s1 where g: "getPlayerID E n a c s = (p, s1)"
    by (cases "getPlayerID E n a c s")
  have s1: "s1 = s\<lparr>calls := Suc (calls s)\<rparr>"
    using getPlayerID_state[of E n a c s] g by simp
  show ?thesis
    using assms by (simp add: resolve_def g s1)
qed

lemma getPlayerID_hit:
  assumes "fst (getPlayerID E n a c s) \<noteq> - 1"
  shows "\<exists>v vs. sql_select_id (c_str n) a (c_str c) (db s) = Some (v # vs)
            \<and> column_int v = fst (getPlayerID E n a c s)"
proof (cases "sql_select_id (c_str n) a (c_str c) (db s)")
  case None
  with assms show ?thesis by (simp add: getPlayerID_select split: if_splits)
next
  case (Some l)
  show ?thesis
  proof (cases l)
    case Nil
    with Some assms show ?thesis by (simp add: getPlayerID_select split: if_splits)
  next
    case (Cons v vs)
    have "\<not> fault E (calls s)"
      using assms by (simp add: getPlayerID_select split: if_splits)
    then have "fst (getPlayerID E n a c s) = column_int v"
      by (simp add: getPlayerID_select Some Cons)
    with Some Cons show ?thesis by simp
  qed
qed

lemma resolve_select:
  assumes "fst (resolve E n a c s) \<noteq> - 1"
  shows "\<exists>v vs. sql_select_id (c_str n) a (c_str c) (db (snd (resolve E n a c s))) = Some (v # vs)
            \<and> column_int v = fst (resolve E n a c s)"
proof (cases "fst (getPlayerID E n a c s) = - 1")
  case False
  have r: "resolve E n a c s = (fst (getPlayerID E n a c s), s\<lparr>calls := Suc (calls s)\<rparr>)"
    by (rule resolve_found[OF False])
  show ?thesis
    using getPlayerID_hit[OF False] by (simp add: r sql_select_id_def)
next
  case True
  let ?s3 = "addPlayer E n a c (print [Str ''New player detected. Adding to database.'', Endl]
            (s\<lparr>calls := Suc (calls s)\<rparr>))"
  have r: "resolve E n a c s = getPlayerID E n a c ?s3"
    by (rule resolve_created[OF True])
  have ne: "fst (getPlayerID E n a c ?s3) \<noteq> - 1"
    using assms unfolding r .
  have d: "db (snd (getPlayerID E n a c ?s3)) = db ?s3"
    by simp
  show ?thesis
    unfolding r d using getPlayerID_hit[OF ne] .
qed

subsection \<open>Resolving a player\<close>

lemma play_unfold:
  "play E inp s =
     spin_loop E (fst (identify E (in_name inp) (in_age inp) (in_card inp) s))
       (in_choices inp) (in_bets inp)
       (Fin 100, updateBalance E (fst (identify E (in_name inp) (in_age inp) (in_card inp) s))
                   (Fin 100) (snd (identify E (in_name inp) (in_age inp) (in_card inp) s)))"
  by (simp add: play_def Let_def split: prod.splits)

lemma select_play:
  "sql_select_id n a c (db (snd (snd (play E inp s)))) =
   sql_select_id n a c (db (snd (identify E (in_name inp) (in_age inp) (in_card inp) s)))"
  by (simp add: play_unfold select_spin_loop)

lemma resolve_known:
  assumes "\<not> fault E (calls s)" and "players (db s) = Some t"
    and "filter (matches (c_str n) a (c_str c)) (rows t) = r # rs"
    and "1 \<le> p_id r" and "p_id r < 2 ^ 31"
  shows "resolve E n a c s = (p_id r, s\<lparr>calls := Suc (calls s)\<rparr>)"
proof -
  have ci: "column_int (p_id r) = p_id r"
    using assms(4,5) by (intro column_int_id) simp_all
  have v: "fst (getPlayerID E n a c s) = p_id r"
    using assms(1-3) by (simp add: getPlayerID_value ci)
  then have "fst (getPlayerID E n a c s) \<noteq> - 1"
    using assms(4) by simp
  from resolve_found[OF this] v show ?thesis by simp
qed

lemma resolve_again:
  assumes i: "fst (identify E1 (in_name inp) (in_age inp) (in_card inp) s1) = i" "i \<noteq> - 1"
    and same: "players (db s2) = players (db (snd (snd (play E1 inp s1))))"
    and nf: "\<not> fault E2 (calls s2)"
  shows "resolve E2 (in_name inp) (in_age inp) (in_card inp) s2 = (i, s2\<lparr>calls := Suc (calls s2)\<rparr>)"
proof -
  let ?n = "in_name inp" and ?a = "in_age inp" and ?c = "in_card inp"
  let ?s0 = "print [Str ''Enter your name: '', Str ''Enter your age: '', Str ''Enter your card: ''] s1"
  have id: "identify E1 ?n ?a ?c s1 = resolve E1 ?n ?a ?c ?s0"
    by (simp add: identify_def)
  from i have "fst (resolve E1 ?n ?a ?c ?s0) \<noteq> - 1" by (simp add: id)
  from resolve_select[OF this] obtain v vs where
    v: "sql_select_id (c_str ?n) ?a (c_str ?c) (db (snd (identify E1 ?n ?a ?c s1))) = Some (v # vs)"
       "column_int v = i"
    using i(1) by (auto simp: id)
  have "sql_select_id (c_str ?n) ?a (c_str ?c) (db s2) =
        sql_select_id (c_str ?n) ?a (c_str ?c) (db (snd (snd (play E1 inp s1))))"
    using same by (simp add: sql_select_id_def)
  then have "sql_select_id (c_str ?n) ?a (c_str ?c) (db s2) = Some (v # vs)"
    by (simp add: select_play v(1))
  then have g: "fst (getPlayerID E2 ?n ?a ?c s2) = i"
    using nf v(2) by (simp add: getPlayerID_select)
  then have "fst (getPlayerID E2 ?n ?a ?c s2) \<noteq> - 1"
    using i(2) by simp
  from resolve_found[OF this] g show ?thesis by simp
qed

text \<open>
  Claim C6. When the lookup goes through and the first stored row with the entered name,
  age and card has an id that a C \<^verbatim>\<open>int\<close> holds, lines 158 to 163 return that id, make one
  call into SQLite and leave the file as it was: no row is added. And a triple that an
  earlier session resolved to a player id \<open>i\<close> (not the sentinel, so that no creation
  failed) resolves to the same \<open>i\<close> in a later session that finds the players the earlier
  one left, again without a new row.
\<close>

theorem known_player_same_id:
  "(\<not> fault E (calls s) \<and> players (db s) = Some t
      \<and> filter (matches (c_str n) a (c_str c)) (rows t) = r # rs
      \<and> 1 \<le> p_id r \<and> p_id r < 2 ^ 31
    \<longrightarrow> resolve E n a c s = (p_id r, s\<lparr>calls := Suc (calls s)\<rparr>))
   \<and> (fst (identify E1 (in_name inp) (in_age inp) (in_card inp) s1) = i \<and> i \<noteq> - 1
      \<and> players (db s2) = players (db (snd (snd (play E1 inp s1))))
      \<and> \<not> fault E2 (calls s2)
    \<longrightarrow> resolve E2 (in_name inp) (in_age inp) (in_card inp) s2 = (i, s2\<lparr>calls := Suc (calls s2)\<rparr>))"
  using resolve_known resolve_again by blast

lemma alice_session:
  "db (snd (snd (play no_faults two_bets (start fresh_tables)))) = alice_file"
  by code_simp

lemma alice_first_id:
  "fst (identify no_faults (in_name two_bets) (in_age two_bets) (in_card two_bets) (start fresh_tables)) = 1"
  by code_simp

theorem known_player_same_id_witness:
  "\<not> fault no_faults (calls (start alice_file))
   \<and> players (db (start alice_file)) = Some \<lparr>rows = [alice_row], seq = 1\<rparr>
   \<and> filter (matches (c_str ''Alice'') 30 (c_str ''1111'')) [alice_row] = [alice_row]
   \<and> 1 \<le> p_id alice_row \<and> p_id alice_row < 2 ^ 31
   \<and> resolve no_faults ''Alice'' 30 ''1111'' (start alice_file)
       = (p_id alice_row, (start alice_file)\<lparr>calls := Suc (calls (start alice_file))\<rparr>)
   \<and> fst (identify no_faults (in_name two_bets) (in_age two_bets) (in_card two_bets) (start fresh_tables)) = 1
   \<and> players (db (start alice_file)) = players (db (snd (snd (play no_faults two_bets (start fresh_tables)))))
   \<and> resolve no_faults (in_name two_bets) (in_age two_bets) (in_card two_bets) (start alice_file)
       = (1, (start alice_file)\<lparr>calls := Suc (calls (start alice_file))\<rparr>)"
proof -
  have h1: "\<not> fault no_faults (calls (start alice_file))" by (simp add: no_faults_def)
  have h2: "players (db (start alice_file)) = Some \<lparr>rows = [alice_row], seq = 1\<rparr>"
    by (simp add: start_def alice_file_def)
  have h3: "filter (matches (c_str ''Alice'') 30 (c_str ''1111'')) (rows \<lparr>rows = [alice_row], seq = 1\<rparr>) = [alice_row]"
    by (simp add: matches_def c_str_def alice_row_def)
  have h3': "filter (matches (c_str ''Alice'') 30 (c_str ''1111'')) [alice_row] = [alice_row]"
    using h3 by simp
  have ne: "(1::int) \<noteq> - 1" by simp
  have h4: "1 \<le> p_id alice_row" "p_id alice_row < 2 ^ 31" by (simp_all add: alice_row_def)
  have h5: "players (db (start alice_file)) = players (db (snd (snd (play no_faults two_bets (start fresh_tables)))))"
    unfolding alice_session by (simp add: start_def)
  note th = known_player_same_id[where E = no_faults and s = "start alice_file"
      and t = "\<lparr>rows = [alice_row], seq = 1\<rparr>" and n = "''Alice''" and a = 30 and c = "''1111''"
      and r = alice_row and rs = "[]" and ?E1.0 = no_faults and inp = two_bets
      and ?s1.0 = "start fresh_tables" and i = 1 and ?s2.0 = "start alice_file" and ?E2.0 = no_faults]
  have r1: "resolve no_faults ''Alice'' 30 ''1111'' (start alice_file)
       = (p_id alice_row, (start alice_file)\<lparr>calls := Suc (calls (start alice_file))\<rparr>)"
    using th h1 h2 h3 h4 by blast
  have r2: "resolve no_faults (in_name two_bets) (in_age two_bets) (in_card two_bets) (start alice_file)
       = (1, (start alice_file)\<lparr>calls := Suc (calls (start alice_file))\<rparr>)"
    using th alice_first_id h5 h1 ne by blast
  show ?thesis
    by (intro conjI h1 h2 h3' h4 r1 alice_first_id h5 r2)
qed

subsection \<open>What a session does to the two tables\<close>

lemma bind_double_Some: "bind_double d = Some d' \<Longrightarrow> d' = d"
  by (simp add: bind_double_def split: if_splits)

lemma saveSpinHistory_rows:
  "\<exists>new. history_rows (db (saveSpinHistory E p b w bal s)) = history_rows (db s) @ new
      \<and> list_all (\<lambda>r. h_player_id r = p \<and> h_bet r = b \<and> h_winnings r = w \<and> h_balance r = bal) new
      \<and> length new \<le> 1"
proof (cases "spin_history (db (saveSpinHistory E p b w bal s)) = spin_history (db s)")
  case True
  then show ?thesis by (simp add: history_rows_def)
next
  case False
  then obtain t b' w' bal' i where
    "spin_history (db s) = Some t" "bind_double b = Some b'" "bind_double w = Some w'"
    "bind_double bal = Some bal'"
    "spin_history (db (saveSpinHistory E p b w bal s)) =
       Some \<lparr>rows = rows t @ [\<lparr>h_id = i, h_player_id = p, h_bet = b', h_winnings = w',
                                h_balance = bal'\<rparr>], seq = i\<rparr>"
    by (auto simp: saveSpinHistory_history split: if_splits option.splits)
  then show ?thesis
    by (auto simp: history_rows_def dest: bind_double_Some)
qed

lemma history_rows_updateBalance [simp]:
  "history_rows (db (updateBalance E p b s)) = history_rows (db s)"
  by (simp add: history_rows_def)

lemma history_rows_addPlayer [simp]:
  "history_rows (db (addPlayer E n a c s)) = history_rows (db s)"
  by (simp add: history_rows_def)

lemma db_getPlayerID [simp]: "db (snd (getPlayerID E n a c s)) = db s"
  by simp

lemma db_resolve:
  "db (snd (resolve E n a c s)) = db s \<or>
   db (snd (resolve E n a c s)) =
     db (addPlayer E n a c (print [Str ''New player detected. Adding to database.'', Endl]
            (s\<lparr>calls := Suc (calls s)\<rparr>)))"
proof (cases "fst (getPlayerID E n a c s) = - 1")
  case True
  show ?thesis unfolding resolve_created[OF True] by simp
next
  case False
  show ?thesis unfolding resolve_found[OF False] by simp
qed

lemma history_rows_identify [simp]:
  "history_rows (db (snd (identify E n a c s))) = history_rows (db s)"
  using db_resolve[of E n a c "print [Str ''Enter your name: '', Str ''Enter your age: '', Str ''Enter your card: ''] s"]
  by (auto simp: identify_def history_rows_def)

lemma spin_once_history:
  "\<exists>new. history_rows (db (snd (spin_once E p bet g (bal, s)))) = history_rows (db s) @ new
      \<and> list_all (\<lambda>r. h_player_id r = p) new"
proof -
  let ?b = "dadd bal (dsub (Fin 0) bet)"
  let ?s1 = "updateBalance E p ?b (displaySpinResult g (s\<lparr>spins := Suc (spins s)\<rparr>))"
  from saveSpinHistory_rows[of E p bet "Fin 0" ?b ?s1] obtain new where
    "history_rows (db (saveSpinHistory E p bet (Fin 0) ?b ?s1)) = history_rows (db ?s1) @ new"
    "list_all (\<lambda>r. h_player_id r = p \<and> h_bet r = bet \<and> h_winnings r = Fin 0 \<and> h_balance r = ?b) new"
    by blast
  then have "history_rows (db (snd (spin_once E p bet g (bal, s)))) = history_rows (db s) @ new
      \<and> list_all (\<lambda>r. h_player_id r = p) new"
    by (simp add: db_spin_once history_rows_def list_all_iff)
  then show ?thesis by blast
qed

lemma spin_loop_history_ids:
  "\<exists>new. history_rows (db (snd (snd (spin_loop E p cs bets (bal, s))))) = history_rows (db s) @ new
      \<and> list_all (\<lambda>r. h_player_id r = p) new"
proof -
  have la: "list_all (\<lambda>_. True) bets" by (simp add: list_all_iff)
  let ?P = "\<lambda>(_::double) s'. \<exists>new. history_rows (db s') = history_rows (db s) @ new
      \<and> list_all (\<lambda>r. h_player_id r = p) new"
  have step: "?P (fst (spin_once E p bet g (bal, s'))) (snd (spin_once E p bet g (bal, s')))"
    if "?P bal s'" for bet g bal s'
  proof -
    from that obtain n1 where n1: "history_rows (db s') = history_rows (db s) @ n1"
      "list_all (\<lambda>r. h_player_id r = p) n1" by blast
    from spin_once_history[of E p bet g bal s'] obtain n2 where
      n2: "history_rows (db (snd (spin_once E p bet g (bal, s')))) = history_rows (db s') @ n2"
      "list_all (\<lambda>r. h_player_id r = p) n2" by blast
    have "history_rows (db (snd (spin_once E p bet g (bal, s')))) = history_rows (db s) @ (n1 @ n2)"
      "list_all (\<lambda>r. h_player_id r = p) (n1 @ n2)"
      using n1 n2 by simp_all
    then show ?thesis by blast
  qed
  have init: "?P bal s" by simp
  have pr: "?P bal (print xs s')" if "?P bal s'" for xs bal s'
    using that by simp
  show ?thesis
    by (rule spin_loop_invariant[where Q = "\<lambda>_. True" and P = ?P, OF pr step la init])
qed

lemma play_history_ids:
  "\<exists>new. history_rows (db (snd (snd (play E inp s)))) = history_rows (db s) @ new
      \<and> list_all (\<lambda>r. h_player_id r = fst (identify E (in_name inp) (in_age inp) (in_card inp) s)) new"
  using spin_loop_history_ids[of E "fst (identify E (in_name inp) (in_age inp) (in_card inp) s)"
      "in_choices inp" "in_bets inp" "Fin 100"
      "updateBalance E (fst (identify E (in_name inp) (in_age inp) (in_card inp) s)) (Fin 100)
         (snd (identify E (in_name inp) (in_age inp) (in_card inp) s))"]
  by (simp add: play_unfold)

lemma spin_once_players:
  "players (db (snd (spin_once E p bet g (bal, s)))) =
     (if fault E (calls s) then players (db s)
      else map_option (\<lambda>t. t\<lparr>rows := map (set_balance p (bind_double (dadd bal (dsub (Fin 0) bet)))) (rows t)\<rparr>)
             (players (db s)))"
  by (simp add: db_spin_once updateBalance_players)

lemma spin_loop_players:
  assumes nf: "\<forall>k. \<not> fault E k"
    and start: "players (db s) = Some \<lparr>rows = map (set_balance p (bind_double bal)) rs, seq = q\<rparr>"
  shows "players (db (snd (snd (spin_loop E p cs bets (bal, s))))) =
           Some \<lparr>rows = map (set_balance p (bind_double (fst (snd (spin_loop E p cs bets (bal, s)))))) rs,
                 seq = q\<rparr>"
proof -
  have la: "list_all (\<lambda>_. True) bets" by (simp add: list_all_iff)
  let ?P = "\<lambda>bal s. players (db s) = Some \<lparr>rows = map (set_balance p (bind_double bal)) rs, seq = q\<rparr>"
  have pr: "?P bal (print xs s')" if "?P bal s'" for xs bal s'
    using that by simp
  have step: "?P (fst (spin_once E p bet g (bal, s'))) (snd (spin_once E p bet g (bal, s')))"
    if "?P bal s'" for bet g bal s'
    using that nf by (simp add: spin_once_players)
  show ?thesis
    by (rule spin_loop_invariant[where Q = "\<lambda>_. True" and P = ?P, OF pr step la start])
qed

lemma small_ids_max: "small_ids t \<Longrightarrow> fold max (map p_id (rows t)) (seq t) = seq t"
  by (rule fold_max_bounded) (auto simp: small_ids_def list_all_iff)

lemma small_ids_next: "small_ids t \<Longrightarrow> next_rowid (map p_id (rows t)) (seq t) = Some (seq t + 1)"
  by (simp add: next_rowid_def small_ids_max Let_def) (simp add: small_ids_def max_rowid_def)

lemma resolve_new:
  assumes nf: "\<not> fault E (calls s)" "\<not> fault E (Suc (calls s))" "\<not> fault E (Suc (Suc (calls s)))"
    and tbl: "players (db s) = Some t" and small: "small_ids t"
    and absent: "filter (matches (c_str n) a (c_str c)) (rows t) = []"
  shows "fst (resolve E n a c s) = seq t + 1"
    and "players (db (snd (resolve E n a c s))) =
           Some \<lparr>rows = rows t @ [\<lparr>p_id = seq t + 1, p_name = c_str n, p_age = a, p_card = c_str c,
                                    p_balance = Some (Fin 0)\<rparr>], seq = seq t + 1\<rparr>"
    and "cout (snd (resolve E n a c s)) = cout s @ [Str ''New player detected. Adding to database.'', Endl]"
    and "calls (snd (resolve E n a c s)) = calls s + 3"
proof -
  let ?s3 = "addPlayer E n a c (print [Str ''New player detected. Adding to database.'', Endl]
            (s\<lparr>calls := Suc (calls s)\<rparr>))"
  let ?new = "\<lparr>p_id = seq t + 1, p_name = c_str n, p_age = a, p_card = c_str c,
                                    p_balance = Some (Fin 0)\<rparr>"
  have first: "fst (getPlayerID E n a c s) = - 1"
    using nf(1) tbl absent by (simp add: getPlayerID_value)
  have r: "resolve E n a c s = getPlayerID E n a c ?s3"
    by (rule resolve_created[OF first])
  have p3: "players (db ?s3) = Some \<lparr>rows = rows t @ [?new], seq = seq t + 1\<rparr>"
    using nf(2) tbl by (simp add: addPlayer_players small_ids_next[OF small])
  have c3: "calls ?s3 = Suc (Suc (calls s))" by simp
  have m: "matches (c_str n) a (c_str c) ?new" by (simp add: matches_def)
  have range: "- (2 ^ 31) \<le> seq t + 1" "seq t + 1 < 2 ^ 31"
    using small by (simp_all add: small_ids_def)
  have "fst (getPlayerID E n a c ?s3) = column_int (seq t + 1)"
    using nf(3) by (simp add: getPlayerID_value c3 p3 absent m)
  then show "fst (resolve E n a c s) = seq t + 1"
    unfolding r using column_int_id[OF range] by simp
  show "players (db (snd (resolve E n a c s))) = Some \<lparr>rows = rows t @ [?new], seq = seq t + 1\<rparr>"
    unfolding r using p3 by simp
  show "cout (snd (resolve E n a c s)) = cout s @ [Str ''New player detected. Adding to database.'', Endl]"
    unfolding r by simp
  show "calls (snd (resolve E n a c s)) = calls s + 3"
    unfolding r by simp
qed

lemma small_ids_untouched: "small_ids t \<Longrightarrow> map (set_balance (seq t + 1) v) (rows t) = rows t"
proof -
  assume "small_ids t"
  then have "\<forall>r \<in> set (rows t). p_id r \<noteq> seq t + 1"
    by (auto simp: small_ids_def list_all_iff)
  then show ?thesis
    by (intro map_idI) (simp add: set_balance_other)
qed

lemma play_new_player:
  assumes nf: "\<forall>k. \<not> fault E k"
    and tbl: "players (db s) = Some t" and small: "small_ids t"
    and absent: "filter (matches (c_str (in_name inp)) (in_age inp) (c_str (in_card inp))) (rows t) = []"
  shows "fst (identify E (in_name inp) (in_age inp) (in_card inp) s) = seq t + 1"
    and "players (db (snd (identify E (in_name inp) (in_age inp) (in_card inp) s))) =
           Some \<lparr>rows = rows t @ [\<lparr>p_id = seq t + 1, p_name = c_str (in_name inp), p_age = in_age inp,
                    p_card = c_str (in_card inp), p_balance = Some (Fin 0)\<rparr>], seq = seq t + 1\<rparr>"
    and "players (db (snd (snd (play E inp s)))) =
           Some \<lparr>rows = rows t @ [\<lparr>p_id = seq t + 1, p_name = c_str (in_name inp), p_age = in_age inp,
                    p_card = c_str (in_card inp), p_balance = bind_double (fst (snd (play E inp s)))\<rparr>],
                 seq = seq t + 1\<rparr>"
proof -
  let ?n = "in_name inp" and ?a = "in_age inp" and ?c = "in_card inp"
  let ?s0 = "print [Str ''Enter your name: '', Str ''Enter your age: '', Str ''Enter your card: ''] s"
  let ?i = "seq t + 1"
  let ?new = "\<lparr>p_id = ?i, p_name = c_str ?n, p_age = ?a, p_card = c_str ?c, p_balance = Some (Fin 0)\<rparr>"
  have id: "identify E ?n ?a ?c s = resolve E ?n ?a ?c ?s0"
    by (simp add: identify_def)
  have tbl0: "players (db ?s0) = Some t" using tbl by simp
  have f: "\<not> fault E (calls ?s0)" "\<not> fault E (Suc (calls ?s0))" "\<not> fault E (Suc (Suc (calls ?s0)))"
    using nf by simp_all
  note rn = resolve_new[OF f tbl0 small absent]
  show i: "fst (identify E ?n ?a ?c s) = ?i"
    unfolding id by (rule rn(1))
  show p1: "players (db (snd (identify E ?n ?a ?c s))) = Some \<lparr>rows = rows t @ [?new], seq = ?i\<rparr>"
    unfolding id by (rule rn(2))
  let ?s1 = "snd (identify E ?n ?a ?c s)"
  let ?s2 = "updateBalance E ?i (Fin 100) ?s1"
  have b100: "bind_double (Fin 100) = Some (Fin 100)" by (simp add: bind_double_def)
  have p2: "players (db ?s2) =
      Some \<lparr>rows = map (set_balance ?i (bind_double (Fin 100))) (rows t @ [?new]), seq = ?i\<rparr>"
    using nf by (simp add: updateBalance_players p1)
  have pl: "play E inp s = spin_loop E ?i (in_choices inp) (in_bets inp) (Fin 100, ?s2)"
    by (simp add: play_unfold i)
  have "players (db (snd (snd (play E inp s)))) =
      Some \<lparr>rows = map (set_balance ?i (bind_double (fst (snd (play E inp s))))) (rows t @ [?new]),
            seq = ?i\<rparr>"
    unfolding pl by (rule spin_loop_players[OF nf p2])
  then show "players (db (snd (snd (play E inp s)))) =
           Some \<lparr>rows = rows t @ [\<lparr>p_id = ?i, p_name = c_str ?n, p_age = ?a,
                    p_card = c_str ?c, p_balance = bind_double (fst (snd (play E inp s)))\<rparr>],
                 seq = ?i\<rparr>"
    by (simp add: small_ids_untouched[OF small] set_balance_def)
qed

text \<open>
  Claim C5. When no call into SQLite fails, the players table exists with ids that leave
  room for one more (\<open>small_ids\<close>), and no stored row has the entered name, age and card:
  the lookup of lines 158 to 163 returns the id that the store assigns, one more than the
  high-water mark, and the table gains exactly one row, that of the new player. At the end
  of the session the rows that were there before are as they were and the new row holds
  the session's last balance, so every balance update went to the new id; and every row
  the session added to the spin history carries that id.
\<close>

theorem new_player_created:
  assumes "\<forall>k. \<not> fault E k"
    and "players (db s) = Some t" and "small_ids t"
    and "filter (matches (c_str (in_name inp)) (in_age inp) (c_str (in_card inp))) (rows t) = []"
  shows "(let i = seq t + 1;
              new = \<lparr>p_id = i, p_name = c_str (in_name inp), p_age = in_age inp,
                     p_card = c_str (in_card inp), p_balance = Some (Fin 0)\<rparr>;
              s1 = snd (identify E (in_name inp) (in_age inp) (in_card inp) s);
              r = play E inp s
          in fst (identify E (in_name inp) (in_age inp) (in_card inp) s) = i
           \<and> players (db s1) = Some \<lparr>rows = rows t @ [new], seq = i\<rparr>
           \<and> players (db (snd (snd r))) =
               Some \<lparr>rows = rows t @ [new\<lparr>p_balance := bind_double (fst (snd r))\<rparr>], seq = i\<rparr>
           \<and> (\<exists>h. history_rows (db (snd (snd r))) = history_rows (db s) @ h
                 \<and> list_all (\<lambda>x. h_player_id x = i) h))"
  using play_new_player[OF assms] play_history_ids[of E inp s]
  by (simp add: Let_def)

theorem new_player_created_witness:
  "(\<forall>k. \<not> fault no_faults k)
   \<and> players (db (start fresh_tables)) = Some \<lparr>rows = [], seq = 0\<rparr>
   \<and> small_ids \<lparr>rows = [], seq = 0\<rparr>
   \<and> filter (matches (c_str (in_name two_bets)) (in_age two_bets) (c_str (in_card two_bets)))
        (rows \<lparr>rows = ([]::player list), seq = 0\<rparr>) = []
   \<and> fst (identify no_faults (in_name two_bets) (in_age two_bets) (in_card two_bets) (start fresh_tables)) = 1
   \<and> players (db (snd (snd (play no_faults two_bets (start fresh_tables))))) =
       Some \<lparr>rows = [alice_row], seq = 1\<rparr>"
proof -
  have h1: "\<forall>k. \<not> fault no_faults k" by (simp add: no_faults_def)
  have h2: "players (db (start fresh_tables)) = Some \<lparr>rows = [], seq = 0\<rparr>"
    by (simp add: start_def fresh_tables_def)
  have h3: "small_ids \<lparr>rows = [], seq = 0\<rparr>" by (simp add: small_ids_def)
  have h4: "filter (matches (c_str (in_name two_bets)) (in_age two_bets) (c_str (in_card two_bets)))
        (rows \<lparr>rows = ([]::player list), seq = 0\<rparr>) = []" by simp
  note th = new_player_created[OF h1 h2 h3 h4, unfolded Let_def]
  have i: "fst (identify no_faults (in_name two_bets) (in_age two_bets) (in_card two_bets) (start fresh_tables)) = 1"
    using th by simp
  have "players (db (snd (snd (play no_faults two_bets (start fresh_tables))))) =
       Some \<lparr>rows = [alice_row], seq = 1\<rparr>"
    using th by (simp add: alice_session alice_file_def)
  with h1 h2 h3 h4 i show ?thesis by blast
qed

lemma filter_other_set_balance:
  "filter (\<lambda>x. p_id x \<noteq> i) (map (set_balance i v) rs) = filter (\<lambda>x. p_id x \<noteq> i) rs"
  by (induction rs) (simp_all add: set_balance_def)

lemma identify_resolved:
  assumes nf: "\<forall>k. \<not> fault E k"
    and tbl: "players (db s) = Some t" and small: "small_ids t"
  shows "\<exists>t1. players (db (snd (identify E n a c s))) = Some t1
           \<and> 1 \<le> fst (identify E n a c s)
           \<and> list_ex (\<lambda>x. p_id x = fst (identify E n a c s) \<and> matches (c_str n) a (c_str c) x) (rows t1)
           \<and> filter (\<lambda>x. p_id x \<noteq> fst (identify E n a c s)) (rows t1)
               = filter (\<lambda>x. p_id x \<noteq> fst (identify E n a c s)) (rows t)"
proof -
  let ?s0 = "print [Str ''Enter your name: '', Str ''Enter your age: '', Str ''Enter your card: ''] s"
  have id: "identify E n a c s = resolve E n a c ?s0"
    by (simp add: identify_def)
  have tbl0: "players (db ?s0) = Some t" using tbl by simp
  show ?thesis
  proof (cases "filter (matches (c_str n) a (c_str c)) (rows t)")
    case Nil
    have f: "\<not> fault E (calls ?s0)" "\<not> fault E (Suc (calls ?s0))" "\<not> fault E (Suc (Suc (calls ?s0)))"
      using nf by simp_all
    note rn = resolve_new[OF f tbl0 small Nil]
    have old: "\<forall>x \<in> set (rows t). p_id x \<noteq> seq t + 1"
      using small by (auto simp: small_ids_def list_all_iff)
    have "1 \<le> seq t + 1" using small by (simp add: small_ids_def)
    then show ?thesis
      unfolding id rn(1) rn(2) by (simp add: matches_def)
  next
    case (Cons r rs)
    then have "r \<in> set (filter (matches (c_str n) a (c_str c)) (rows t))" by simp
    then have r: "r \<in> set (rows t)" "matches (c_str n) a (c_str c) r" by simp_all
    then have range: "1 \<le> p_id r" "p_id r < 2 ^ 31"
      using small by (auto simp: small_ids_def list_all_iff)
    have f: "\<not> fault E (calls ?s0)" using nf by simp
    note rk = resolve_known[OF f tbl0 Cons range]
    show ?thesis
      unfolding id rk using r range(1) tbl by (auto simp: list_ex_iff)
  qed
qed

text \<open>
  Claim C3. Whatever the commands and bets of a session, its loop starts with the balance
  variable at 100.0 and in the state that the \<^verbatim>\<open>updateBalance\<close> of line 166 leaves. When no
  call into SQLite fails, in that state the stored balance of every row with the resolved
  id is 100.0, whatever was stored before: the table \<open>t\<close> that the session finds is
  arbitrary. The resolved id belongs to a row with the entered name, age and card, and the
  rows with other ids are as they were. The run on the file that an earlier session of the
  same player left with balance \<open>-60\<close> is the repeat login.
\<close>

theorem balance_reset_on_login:
  assumes "\<forall>k. \<not> fault E k"
    and "players (db s) = Some t" and "small_ids t"
  shows "(let i = fst (identify E (in_name inp) (in_age inp) (in_card inp) s);
              s2 = updateBalance E i (Fin 100)
                     (snd (identify E (in_name inp) (in_age inp) (in_card inp) s))
          in play E inp s = spin_loop E i (in_choices inp) (in_bets inp) (Fin 100, s2)
           \<and> (\<exists>t'. players (db s2) = Some t'
                \<and> list_ex (\<lambda>x. p_id x = i
                       \<and> matches (c_str (in_name inp)) (in_age inp) (c_str (in_card inp)) x) (rows t')
                \<and> list_all (\<lambda>x. p_id x = i \<longrightarrow> p_balance x = Some (Fin 100)) (rows t')
                \<and> filter (\<lambda>x. p_id x \<noteq> i) (rows t') = filter (\<lambda>x. p_id x \<noteq> i) (rows t)))"
proof -
  let ?n = "in_name inp" and ?a = "in_age inp" and ?c = "in_card inp"
  let ?i = "fst (identify E ?n ?a ?c s)"
  let ?s1 = "snd (identify E ?n ?a ?c s)"
  let ?s2 = "updateBalance E ?i (Fin 100) ?s1"
  from identify_resolved[OF assms(1-3), of ?n ?a ?c] obtain t1 where
    t1: "players (db ?s1) = Some t1"
        "list_ex (\<lambda>x. p_id x = ?i \<and> matches (c_str ?n) ?a (c_str ?c) x) (rows t1)"
        "filter (\<lambda>x. p_id x \<noteq> ?i) (rows t1) = filter (\<lambda>x. p_id x \<noteq> ?i) (rows t)"
    by blast
  have pl: "play E inp s = spin_loop E ?i (in_choices inp) (in_bets inp) (Fin 100, ?s2)"
    by (rule play_unfold)
  let ?t' = "t1\<lparr>rows := map (set_balance ?i (Some (Fin 100))) (rows t1)\<rparr>"
  have p2: "players (db ?s2) = Some ?t'"
    using assms(1) by (simp add: updateBalance_players t1(1) bind_double_def)
  have a: "list_ex (\<lambda>x. p_id x = ?i \<and> matches (c_str ?n) ?a (c_str ?c) x) (rows ?t')"
    using t1(2) by (auto simp: list_ex_iff)
  have b: "list_all (\<lambda>x. p_id x = ?i \<longrightarrow> p_balance x = Some (Fin 100)) (rows ?t')"
    by (auto simp: list_all_iff set_balance_def)
  have c: "filter (\<lambda>x. p_id x \<noteq> ?i) (rows ?t') = filter (\<lambda>x. p_id x \<noteq> ?i) (rows t)"
    using t1(3) by (simp add: filter_other_set_balance)
  have ex: "\<exists>t'. players (db ?s2) = Some t'
                \<and> list_ex (\<lambda>x. p_id x = ?i \<and> matches (c_str ?n) ?a (c_str ?c) x) (rows t')
                \<and> list_all (\<lambda>x. p_id x = ?i \<longrightarrow> p_balance x = Some (Fin 100)) (rows t')
                \<and> filter (\<lambda>x. p_id x \<noteq> ?i) (rows t') = filter (\<lambda>x. p_id x \<noteq> ?i) (rows t)"
    using p2 a b c by blast
  show ?thesis
    unfolding Let_def using pl ex by (rule conjI)
qed

theorem balance_reset_on_login_witness:
  "(\<forall>k. \<not> fault no_faults k)
   \<and> players (db (start alice_file)) = Some \<lparr>rows = [alice_row], seq = 1\<rparr>
   \<and> small_ids \<lparr>rows = [alice_row], seq = 1\<rparr>
   \<and> p_balance alice_row = Some (Fin (- 60))
   \<and> fst (identify no_faults (in_name two_bets) (in_age two_bets) (in_card two_bets) (start alice_file)) = 1
   \<and> play no_faults two_bets (start alice_file) =
       spin_loop no_faults 1 (in_choices two_bets) (in_bets two_bets)
         (Fin 100, updateBalance no_faults 1 (Fin 100)
            (snd (identify no_faults (in_name two_bets) (in_age two_bets) (in_card two_bets)
                   (start alice_file))))
   \<and> players (db (updateBalance no_faults 1 (Fin 100)
            (snd (identify no_faults (in_name two_bets) (in_age two_bets) (in_card two_bets)
                   (start alice_file))))) =
       Some \<lparr>rows = [alice_row\<lparr>p_balance := Some (Fin 100)\<rparr>], seq = 1\<rparr>"
proof -
  have h1: "\<forall>k. \<not> fault no_faults k" by (simp add: no_faults_def)
  have h2: "players (db (start alice_file)) = Some \<lparr>rows = [alice_row], seq = 1\<rparr>"
    by (simp add: start_def alice_file_def)
  have h3: "small_ids \<lparr>rows = [alice_row], seq = 1\<rparr>"
    by (simp add: small_ids_def alice_row_def)
  have h5: "p_balance alice_row = Some (Fin (- 60))" by (simp add: alice_row_def)
  have i: "fst (identify no_faults (in_name two_bets) (in_age two_bets) (in_card two_bets) (start alice_file)) = 1"
    by code_simp
  note th = balance_reset_on_login[OF h1 h2 h3, of two_bets, unfolded Let_def i]
  have pl: "play no_faults two_bets (start alice_file) =
       spin_loop no_faults 1 (in_choices two_bets) (in_bets two_bets)
         (Fin 100, updateBalance no_faults 1 (Fin 100)
            (snd (identify no_faults (in_name two_bets) (in_age two_bets) (in_card two_bets)
                   (start alice_file))))"
    using th by (rule conjunct1)
  have p: "players (db (updateBalance no_faults 1 (Fin 100)
            (snd (identify no_faults (in_name two_bets) (in_age two_bets) (in_card two_bets)
                   (start alice_file))))) =
       Some \<lparr>rows = [alice_row\<lparr>p_balance := Some (Fin 100)\<rparr>], seq = 1\<rparr>"
    by code_simp
  show ?thesis
    by (intro conjI h1 h2 h3 h5 i pl p)
qed

subsection \<open>A session under the sentinel\<close>

lemma no_row_untouched:
  assumes "list_all (\<lambda>x. p_id x \<noteq> i) (player_rows d)"
  shows "map_option (\<lambda>t. t\<lparr>rows := map (set_balance i v) (rows t)\<rparr>) (players d) = players d"
proof (cases "players d")
  case None
  then show ?thesis by simp
next
  case (Some t)
  with assms have "\<forall>x \<in> set (rows t). p_id x \<noteq> i"
    by (simp add: player_rows_def list_all_iff)
  then have "map (set_balance i v) (rows t) = rows t"
    by (intro map_idI) (simp add: set_balance_other)
  with Some show ?thesis by simp
qed

lemma updateBalance_no_row:
  assumes "list_all (\<lambda>x. p_id x \<noteq> i) (player_rows (db s))"
  shows "players (db (updateBalance E i b s)) = players (db s)"
  using no_row_untouched[OF assms] by (simp add: updateBalance_players)

lemma spin_once_no_row:
  assumes "list_all (\<lambda>x. p_id x \<noteq> i) (player_rows (db s))"
  shows "players (db (snd (spin_once E i bet g (bal, s)))) = players (db s)"
  using no_row_untouched[OF assms] by (simp add: spin_once_players)

lemma spin_loop_no_row:
  assumes "list_all (\<lambda>x. p_id x \<noteq> i) (player_rows (db s))"
  shows "players (db (snd (snd (spin_loop E i cs bets (bal, s))))) = players (db s)"
proof -
  have la: "list_all (\<lambda>_. True) bets" by (simp add: list_all_iff)
  let ?P = "\<lambda>(_::double) s'. players (db s') = players (db s)"
  have pr: "?P bal (print xs s')" if "?P bal s'" for xs bal s'
    using that by simp
  have step: "?P (fst (spin_once E i bet g (bal, s'))) (snd (spin_once E i bet g (bal, s')))"
    if "?P bal s'" for bet g bal s'
  proof -
    from that assms have "list_all (\<lambda>x. p_id x \<noteq> i) (player_rows (db s'))"
      by (simp add: player_rows_def)
    from spin_once_no_row[OF this] that show ?thesis by simp
  qed
  show ?thesis
    by (rule spin_loop_invariant[where Q = "\<lambda>_. True" and P = ?P, OF pr step la refl])
qed

lemma play_no_row:
  assumes "list_all (\<lambda>x. p_id x \<noteq> fst (identify E (in_name inp) (in_age inp) (in_card inp) s))
             (player_rows (db (snd (identify E (in_name inp) (in_age inp) (in_card inp) s))))"
  shows "players (db (snd (snd (play E inp s)))) =
         players (db (snd (identify E (in_name inp) (in_age inp) (in_card inp) s)))"
proof -
  let ?i = "fst (identify E (in_name inp) (in_age inp) (in_card inp) s)"
  let ?s1 = "snd (identify E (in_name inp) (in_age inp) (in_card inp) s)"
  have u: "players (db (updateBalance E ?i (Fin 100) ?s1)) = players (db ?s1)"
    by (rule updateBalance_no_row[OF assms])
  then have "list_all (\<lambda>x. p_id x \<noteq> ?i) (player_rows (db (updateBalance E ?i (Fin 100) ?s1)))"
    using assms by (simp add: player_rows_def)
  from spin_loop_no_row[OF this] u show ?thesis
    by (simp add: play_unfold)
qed

lemma identify_unfold:
  "identify E n a c s = resolve E n a c
     (print [Str ''Enter your name: '', Str ''Enter your age: '', Str ''Enter your card: ''] s)"
  by (simp add: identify_def)

lemma resolve_insert_fails:
  assumes tbl: "players (db s) = Some t"
    and absent: "filter (matches (c_str n) a (c_str c)) (rows t) = []"
    and fail: "fault E (Suc (calls s))"
  shows "fst (resolve E n a c s) = - 1"
    and "db (snd (resolve E n a c s)) = db s"
    and "calls (snd (resolve E n a c s)) = calls s + 3"
    and "cerr (snd (resolve E n a c s)) = cerr s @ [Str ''Error adding player.'', Endl]"
proof -
  let ?s2 = "print [Str ''New player detected. Adding to database.'', Endl] (s\<lparr>calls := Suc (calls s)\<rparr>)"
  let ?s3 = "addPlayer E n a c ?s2"
  have first: "fst (getPlayerID E n a c s) = - 1"
    using tbl absent by (simp add: getPlayerID_value)
  have r: "resolve E n a c s = getPlayerID E n a c ?s3"
    by (rule resolve_created[OF first])
  have s3: "?s3 = eprint [Str ''Error adding player.'', Endl] (?s2\<lparr>calls := Suc (calls ?s2)\<rparr>)"
    using fail by (simp add: addPlayer_def sqlite_call_def)
  have d3: "db ?s3 = db s" unfolding s3 by simp
  show "fst (resolve E n a c s) = - 1"
    unfolding r using tbl absent by (simp add: getPlayerID_value d3)
  show "db (snd (resolve E n a c s)) = db s"
    unfolding r using d3 by simp
  show "calls (snd (resolve E n a c s)) = calls s + 3"
    unfolding r by simp
  show "cerr (snd (resolve E n a c s)) = cerr s @ [Str ''Error adding player.'', Endl]"
    unfolding r s3 by simp
qed

lemma resolve_second_lookup_fails:
  assumes first: "fst (getPlayerID E n a c s) = - 1"
    and fail: "fault E (Suc (Suc (calls s)))"
  shows "fst (resolve E n a c s) = - 1"
    and "calls (snd (resolve E n a c s)) = calls s + 3"
proof -
  let ?s3 = "addPlayer E n a c (print [Str ''New player detected. Adding to database.'', Endl]
     (s\<lparr>calls := Suc (calls s)\<rparr>))"
  have r: "resolve E n a c s = getPlayerID E n a c ?s3"
    by (rule resolve_created[OF first])
  show "fst (resolve E n a c s) = - 1"
    unfolding r using fail by (simp add: getPlayerID_value)
  show "calls (snd (resolve E n a c s)) = calls s + 3"
    unfolding r by simp
qed

lemma getPlayerID_not_found:
  assumes "fault E (calls s) \<or> filter (matches (c_str n) a (c_str c)) (player_rows (db s)) = []"
  shows "fst (getPlayerID E n a c s) = - 1"
  using assms by (cases "players (db s)") (auto simp: getPlayerID_value player_rows_def)

lemma getPlayerID_print [simp]:
  "fst (getPlayerID E n a c (print xs s)) = fst (getPlayerID E n a c s)"
  by (simp add: getPlayerID_value)

lemma play_sentinel:
  assumes i: "fst (identify E (in_name inp) (in_age inp) (in_card inp) s) = - 1"
    and noid: "list_all (\<lambda>x. p_id x \<noteq> - 1)
                 (player_rows (db (snd (identify E (in_name inp) (in_age inp) (in_card inp) s))))"
  shows "play E inp s = spin_loop E (- 1) (in_choices inp) (in_bets inp)
           (Fin 100, updateBalance E (- 1) (Fin 100)
                       (snd (identify E (in_name inp) (in_age inp) (in_card inp) s)))"
    and "players (db (snd (snd (play E inp s)))) =
           players (db (snd (identify E (in_name inp) (in_age inp) (in_card inp) s)))"
    and "\<exists>h. history_rows (db (snd (snd (play E inp s)))) = history_rows (db s) @ h
             \<and> list_all (\<lambda>x. h_player_id x = - 1) h"
proof -
  show "play E inp s = spin_loop E (- 1) (in_choices inp) (in_bets inp)
           (Fin 100, updateBalance E (- 1) (Fin 100)
                       (snd (identify E (in_name inp) (in_age inp) (in_card inp) s)))"
    by (simp add: play_unfold i)
  show "players (db (snd (snd (play E inp s)))) =
           players (db (snd (identify E (in_name inp) (in_age inp) (in_card inp) s)))"
    by (rule play_no_row) (simp add: i noid)
  show "\<exists>h. history_rows (db (snd (snd (play E inp s)))) = history_rows (db s) @ h
             \<and> list_all (\<lambda>x. h_player_id x = - 1) h"
    using play_history_ids[of E inp s] by (simp add: i)
qed

text \<open>
  Claim C10. The lookup returns \<open>-1\<close> when it fails or finds no row. When the triple is not
  stored and the INSERT fails, lines 158 to 163 make their three calls into SQLite (lookup,
  insert, lookup: no retry), write one diagnostic, leave the file as it was and yield
  \<open>-1\<close>; so they do when the lookup after the insert fails. A session whose player id is
  \<open>-1\<close> runs the same loop as any other: when no stored player has the id \<open>-1\<close> (rowids are
  positive), its balance updates change no row of the players table, and every row it adds
  to the spin history has \<^verbatim>\<open>player_id\<close> \<open>-1\<close>.
\<close>

theorem sentinel_session:
  "(fault E (calls s) \<or> filter (matches (c_str n) a (c_str c)) (player_rows (db s)) = []
      \<longrightarrow> fst (getPlayerID E n a c s) = - 1)
   \<and> (players (db s) = Some t \<and> filter (matches (c_str n) a (c_str c)) (rows t) = []
        \<and> fault E (Suc (calls s))
      \<longrightarrow> fst (identify E n a c s) = - 1
        \<and> db (snd (identify E n a c s)) = db s
        \<and> calls (snd (identify E n a c s)) = calls s + 3
        \<and> cerr (snd (identify E n a c s)) = cerr s @ [Str ''Error adding player.'', Endl])
   \<and> (fst (getPlayerID E n a c s) = - 1 \<and> fault E (Suc (Suc (calls s)))
      \<longrightarrow> fst (identify E n a c s) = - 1 \<and> calls (snd (identify E n a c s)) = calls s + 3)
   \<and> (fst (identify E (in_name inp) (in_age inp) (in_card inp) s) = - 1
        \<and> list_all (\<lambda>x. p_id x \<noteq> - 1)
             (player_rows (db (snd (identify E (in_name inp) (in_age inp) (in_card inp) s))))
      \<longrightarrow> play E inp s = spin_loop E (- 1) (in_choices inp) (in_bets inp)
             (Fin 100, updateBalance E (- 1) (Fin 100)
                         (snd (identify E (in_name inp) (in_age inp) (in_card inp) s)))
        \<and> players (db (snd (snd (play E inp s)))) =
             players (db (snd (identify E (in_name inp) (in_age inp) (in_card inp) s)))
        \<and> (\<exists>h. history_rows (db (snd (snd (play E inp s)))) = history_rows (db s) @ h
              \<and> list_all (\<lambda>x. h_player_id x = - 1) h))"
proof (intro conjI impI)
  let ?s0 = "print [Str ''Enter your name: '', Str ''Enter your age: '', Str ''Enter your card: ''] s"
  show "fst (getPlayerID E n a c s) = - 1"
    if "fault E (calls s) \<or> filter (matches (c_str n) a (c_str c)) (player_rows (db s)) = []"
    using that by (rule getPlayerID_not_found)
  {
    assume a: "players (db s) = Some t \<and> filter (matches (c_str n) a (c_str c)) (rows t) = []
        \<and> fault E (Suc (calls s))"
    then have h: "players (db ?s0) = Some t" "filter (matches (c_str n) a (c_str c)) (rows t) = []"
      "fault E (Suc (calls ?s0))" by simp_all
    note r = resolve_insert_fails[OF h]
    show "fst (identify E n a c s) = - 1" unfolding identify_unfold by (rule r(1))
    show "db (snd (identify E n a c s)) = db s" unfolding identify_unfold using r(2) by simp
    show "calls (snd (identify E n a c s)) = calls s + 3" unfolding identify_unfold using r(3) by simp
    show "cerr (snd (identify E n a c s)) = cerr s @ [Str ''Error adding player.'', Endl]"
      unfolding identify_unfold using r(4) by simp
  }
  {
    assume a: "fst (getPlayerID E n a c s) = - 1 \<and> fault E (Suc (Suc (calls s)))"
    then have h: "fst (getPlayerID E n a c ?s0) = - 1" "fault E (Suc (Suc (calls ?s0)))"
      by simp_all
    note r = resolve_second_lookup_fails[OF h]
    show "fst (identify E n a c s) = - 1" unfolding identify_unfold by (rule r(1))
    show "calls (snd (identify E n a c s)) = calls s + 3" unfolding identify_unfold using r(2) by simp
  }
  {
    assume a: "fst (identify E (in_name inp) (in_age inp) (in_card inp) s) = - 1
        \<and> list_all (\<lambda>x. p_id x \<noteq> - 1)
             (player_rows (db (snd (identify E (in_name inp) (in_age inp) (in_card inp) s))))"
    note r = play_sentinel[OF conjunct1[OF a] conjunct2[OF a]]
    show "play E inp s = spin_loop E (- 1) (in_choices inp) (in_bets inp)
             (Fin 100, updateBalance E (- 1) (Fin 100)
                         (snd (identify E (in_name inp) (in_age inp) (in_card inp) s)))"
      by (rule r(1))
    show "players (db (snd (snd (play E inp s)))) =
             players (db (snd (identify E (in_name inp) (in_age inp) (in_card inp) s)))"
      by (rule r(2))
    show "\<exists>h. history_rows (db (snd (snd (play E inp s)))) = history_rows (db s) @ h
              \<and> list_all (\<lambda>x. h_player_id x = - 1) h"
      by (rule r(3))
  }
qed

theorem sentinel_session_witness:
  "filter (matches (c_str (in_name two_bets)) (in_age two_bets) (c_str (in_card two_bets)))
      (player_rows (db (start fresh_tables))) = []
   \<and> players (db (start fresh_tables)) = Some \<lparr>rows = [], seq = 0\<rparr>
   \<and> fault insert_fails (Suc (calls (start fresh_tables)))
   \<and> fst (identify insert_fails (in_name two_bets) (in_age two_bets) (in_card two_bets)
            (start fresh_tables)) = - 1
   \<and> list_all (\<lambda>x. p_id x \<noteq> - 1)
        (player_rows (db (snd (identify insert_fails (in_name two_bets) (in_age two_bets)
            (in_card two_bets) (start fresh_tables)))))
   \<and> players (db (snd (snd (play insert_fails two_bets (start fresh_tables))))) =
        Some \<lparr>rows = [], seq = 0\<rparr>
   \<and> map h_player_id (history_rows (db (snd (snd (play insert_fails two_bets (start fresh_tables))))))
        = [- 1, - 1]
   \<and> fault second_lookup_fails (Suc (Suc (calls (start fresh_tables))))
   \<and> fst (identify second_lookup_fails (in_name two_bets) (in_age two_bets) (in_card two_bets)
            (start fresh_tables)) = - 1"
proof -
  let ?n = "in_name two_bets" and ?a = "in_age two_bets" and ?c = "in_card two_bets"
  let ?s = "start fresh_tables"
  have h1: "filter (matches (c_str ?n) ?a (c_str ?c)) (player_rows (db ?s)) = []"
    by (simp add: player_rows_def start_def fresh_tables_def)
  have h2: "players (db ?s) = Some \<lparr>rows = [], seq = 0\<rparr>"
    by (simp add: start_def fresh_tables_def)
  have h2': "filter (matches (c_str ?n) ?a (c_str ?c)) (rows \<lparr>rows = ([]::player list), seq = 0\<rparr>) = []"
    by simp
  have h3: "fault insert_fails (Suc (calls ?s))"
    by (simp add: insert_fails_def start_def)
  note th = sentinel_session[where E = insert_fails and s = ?s and n = ?n and a = ?a and c = ?c
      and t = "\<lparr>rows = [], seq = 0\<rparr>" and inp = two_bets]
  have id: "fst (identify insert_fails ?n ?a ?c ?s) = - 1"
    "db (snd (identify insert_fails ?n ?a ?c ?s)) = db ?s"
    using th h2 h2' h3 by blast+
  have h4: "list_all (\<lambda>x. p_id x \<noteq> - 1) (player_rows (db (snd (identify insert_fails ?n ?a ?c ?s))))"
    unfolding id(2) by (simp add: player_rows_def h2)
  have "players (db (snd (snd (play insert_fails two_bets ?s)))) =
        players (db (snd (identify insert_fails ?n ?a ?c ?s)))"
    using th id(1) h4 by blast
  then have p: "players (db (snd (snd (play insert_fails two_bets ?s)))) = Some \<lparr>rows = [], seq = 0\<rparr>"
    unfolding id(2) h2 .
  have hist: "map h_player_id (history_rows (db (snd (snd (play insert_fails two_bets ?s))))) = [- 1, - 1]"
    by code_simp
  have g: "fst (getPlayerID second_lookup_fails ?n ?a ?c ?s) = - 1"
    using sentinel_session[where E = second_lookup_fails and s = ?s and n = ?n and a = ?a and c = ?c] h1
    by blast
  have h5: "fault second_lookup_fails (Suc (Suc (calls ?s)))"
    by (simp add: second_lookup_fails_def start_def)
  have id2: "fst (identify second_lookup_fails ?n ?a ?c ?s) = - 1"
    using sentinel_session[where E = second_lookup_fails and s = ?s and n = ?n and a = ?a and c = ?c] g h5
    by blast
  show ?thesis
    by (intro conjI h1 h2 h3 id(1) h4 p hist h5 id2)
qed

subsection \<open>The rows a session adds to the spin history\<close>

lemma rnd_not_NaN [simp]: "rnd x \<noteq> NaN"
  by (simp add: rnd_def Let_def)

lemma dsub_not_NaN: "bal \<noteq> NaN \<Longrightarrow> is_finite bet \<Longrightarrow> dsub bal bet \<noteq> NaN"
  by (cases bal; cases bet) (simp_all add: is_finite_def)

lemma is_finite_not_NaN: "is_finite bet \<Longrightarrow> bet \<noteq> NaN"
  by (cases bet) (simp_all add: is_finite_def)

lemma spin_once_history_row:
  assumes nf: "\<not> fault E (Suc (calls s))"
    and hist: "spin_history (db s) = Some h"
    and room: "fold max (map h_id (rows h)) (seq h) < max_rowid"
    and fin: "is_finite bet" and bal: "bal \<noteq> NaN"
  shows "spin_history (db (snd (spin_once E p bet g (bal, s)))) =
           Some \<lparr>rows = rows h @ [\<lparr>h_id = fold max (map h_id (rows h)) (seq h) + 1, h_player_id = p,
                                    h_bet = bet, h_winnings = Fin 0, h_balance = dsub bal bet\<rparr>],
                 seq = fold max (map h_id (rows h)) (seq h) + 1\<rparr>"
proof -
  let ?s1 = "updateBalance E p (dsub bal bet) (displaySpinResult g (s\<lparr>spins := Suc (spins s)\<rparr>))"
  have b: "dadd bal (dsub (Fin 0) bet) = dsub bal bet" by (rule settle_finite[OF fin])
  have d: "db (snd (spin_once E p bet g (bal, s))) =
           db (saveSpinHistory E p bet (Fin 0) (dsub bal bet) ?s1)"
    unfolding db_spin_once b ..
  have c: "\<not> fault E (calls ?s1)" using nf by simp
  have h1: "spin_history (db ?s1) = Some h" using hist by simp
  have bd: "bind_double bet = Some bet" "bind_double (Fin 0) = Some (Fin 0)"
    "bind_double (dsub bal bet) = Some (dsub bal bet)"
    using is_finite_not_NaN[OF fin] dsub_not_NaN[OF bal fin] by (simp_all add: bind_double_def)
  have nr: "next_rowid (map h_id (rows h)) (seq h) = Some (fold max (map h_id (rows h)) (seq h) + 1)"
    using room by (simp add: next_rowid_def Let_def)
  show ?thesis
    unfolding d saveSpinHistory_history using c by (simp add: hist bd nr)
qed

lemma spin_loop_history:
  assumes nf: "\<forall>k. \<not> fault E k" and gd: "\<forall>n k. draws E n k < 4"
  shows "list_all is_finite bets \<Longrightarrow> bal \<noteq> NaN \<Longrightarrow> spin_history (db s) = Some h \<Longrightarrow>
         has_room h (turns cs bets) \<Longrightarrow>
         history_rows (db (snd (snd (spin_loop E p cs bets (bal, s))))) =
           rows h @ spin_rows (fold max (map h_id (rows h)) (seq h)) p bal (take (turns cs bets) bets)"
proof (induction cs arbitrary: bets bal s h)
  case Nil
  then show ?case by (simp add: turns_def history_rows_def)
next
  case (Cons c cs)
  let ?s2 = "print [Str ''Enter your bet amount: ''] (print [Str ''Press 'p' to play, 'q' to quit: ''] s)"
  let ?m = "fold max (map h_id (rows h)) (seq h)"
  show ?case
  proof (cases "c = CHR ''q''")
    case True
    with Cons.prems show ?thesis by (simp add: turns_def history_rows_def)
  next
    case False
    show ?thesis
    proof (cases bets)
      case Nil
      with False Cons.prems show ?thesis by (simp add: turns_def history_rows_def)
    next
      case (Cons bet bets')
      obtain g where g: "getSpinResult (draws E (spins s)) = Some g"
        using getSpinResult_Some gd by blast
      obtain bal1 s1 where so: "spin_once E p bet g (bal, ?s2) = (bal1, s1)"
        by (cases "spin_once E p bet g (bal, ?s2)")
      from Cons Cons.prems(1) have fin: "is_finite bet" "list_all is_finite bets'" by simp_all
      have t: "turns (c # cs) bets = Suc (turns cs bets')"
        using False Cons by (simp add: turns_def)
      have room: "?m < max_rowid" "?m + 1 + int (turns cs bets') \<le> max_rowid"
        using Cons.prems(4) by (simp_all add: has_room_def t)
      let ?row = "\<lparr>h_id = ?m + 1, h_player_id = p, h_bet = bet, h_winnings = Fin 0,
                    h_balance = dsub bal bet\<rparr>"
      let ?h1 = "\<lparr>rows = rows h @ [?row], seq = ?m + 1\<rparr>"
      have hs2: "spin_history (db ?s2) = Some h" using Cons.prems(3) by simp
      have nf2: "\<not> fault E (Suc (calls ?s2))" using nf by simp
      have h1: "spin_history (db s1) = Some ?h1"
        using spin_once_history_row[OF nf2 hs2 room(1) fin(1) Cons.prems(2), of p g] so by simp
      have b1: "bal1 = dsub bal bet"
        using arg_cong[OF so, of fst] fin(1) by (simp add: settle_finite)
      have nn: "bal1 \<noteq> NaN" unfolding b1 by (rule dsub_not_NaN[OF Cons.prems(2) fin(1)])
      have m1: "fold max (map h_id (rows ?h1)) (seq ?h1) = ?m + 1"
        using fold_max_snoc[of "map h_id (rows h)" "seq h"] by simp
      have room1: "has_room ?h1 (turns cs bets')"
        unfolding has_room_def m1 using room(2) by simp
      have step: "spin_loop E p (c # cs) bets (bal, s) = spin_loop E p cs bets' (bal1, s1)"
        using False Cons g so by (simp add: Let_def)
      have "history_rows (db (snd (snd (spin_loop E p cs bets' (bal1, s1))))) =
              rows ?h1 @ spin_rows (?m + 1) p bal1 (take (turns cs bets') bets')"
        using Cons.IH[OF fin(2) nn h1 room1] unfolding m1 .
      then have hr: "history_rows (db (snd (snd (spin_loop E p cs bets' (dsub bal bet, s1))))) =
              rows h @ ?row # spin_rows (?m + 1) p (dsub bal bet) (take (turns cs bets') bets')"
        by (simp add: b1)
      show ?thesis
        unfolding step b1 using hr by (simp add: t[unfolded Cons] Cons)
    qed
  qed
qed

lemma spin_rows_fields:
  "length (spin_rows m p bal bs) = length bs"
  "map h_player_id (spin_rows m p bal bs) = replicate (length bs) p"
  "map h_bet (spin_rows m p bal bs) = bs"
  "map h_winnings (spin_rows m p bal bs) = replicate (length bs) (Fin 0)"
  "map h_balance (spin_rows m p bal bs) = balances bal bs"
  by (induction bs arbitrary: m bal) simp_all

lemma spin_history_identify [simp]:
  "spin_history (db (snd (identify E n a c s))) = spin_history (db s)"
  using db_resolve[of E n a c "print [Str ''Enter your name: '', Str ''Enter your age: '', Str ''Enter your card: ''] s"]
  by (auto simp: identify_def)

lemma play_history:
  assumes nf: "\<forall>k. \<not> fault E k" and gd: "\<forall>n k. draws E n k < 4"
    and fin: "list_all is_finite (in_bets inp)"
    and hist: "spin_history (db s) = Some h"
    and room: "has_room h (turns (in_choices inp) (in_bets inp))"
  shows "history_rows (db (snd (snd (play E inp s)))) =
           rows h @ spin_rows (fold max (map h_id (rows h)) (seq h))
                     (fst (identify E (in_name inp) (in_age inp) (in_card inp) s)) (Fin 100)
                     (take (turns (in_choices inp) (in_bets inp)) (in_bets inp))"
proof -
  let ?i = "fst (identify E (in_name inp) (in_age inp) (in_card inp) s)"
  let ?s2 = "updateBalance E ?i (Fin 100) (snd (identify E (in_name inp) (in_age inp) (in_card inp) s))"
  have h2: "spin_history (db ?s2) = Some h" using hist by simp
  have nn: "Fin 100 \<noteq> NaN" by simp
  show ?thesis
    unfolding play_unfold by (rule spin_loop_history[OF nf gd fin nn h2 room])
qed

text \<open>
  Claim C4, as the code has it. In a session in which no call into SQLite fails and the
  history table has room for the rowids, the rows of the spin history that were there
  stay, and the session adds one row for each of its spins and no other: as many rows as
  spins, in the order of the spins. Each row holds the player id of the session, the bet
  that was read, winnings zero and the balance after that spin. What the user reads after
  \<^verbatim>\<open>New Balance:\<close> is that balance as \<^verbatim>\<open>std::cout\<close> writes a double, with six significant
  digits.
\<close>

theorem spin_history_records:
  assumes "\<forall>k. \<not> fault E k" and "\<forall>n k. draws E n k < 4"
    and "list_all is_finite (in_bets inp)"
    and "spin_history (db s) = Some h"
    and "has_room h (turns (in_choices inp) (in_bets inp))"
  shows "(let n = turns (in_choices inp) (in_bets inp);
              bets = take n (in_bets inp);
              i = fst (identify E (in_name inp) (in_age inp) (in_card inp) s);
              r = play E inp s;
              new = drop (length (rows h)) (history_rows (db (snd (snd r))))
          in spins (snd (snd r)) = spins s + n
           \<and> take (length (rows h)) (history_rows (db (snd (snd r)))) = rows h
           \<and> length new = n
           \<and> map h_player_id new = replicate n i
           \<and> map h_bet new = bets
           \<and> map h_winnings new = replicate n (Fin 0)
           \<and> map h_balance new = balances (Fin 100) bets
           \<and> printed (cout (snd (snd r))) =
               printed (cout s) @ map (\<lambda>x. show_double (h_balance x)) new)"
proof -
  let ?n = "turns (in_choices inp) (in_bets inp)"
  have n: "length (take ?n (in_bets inp)) = ?n"
    by (simp add: turns_def)
  note run = play_run[OF assms(2,3), of s]
  note hr = play_history[OF assms]
  have m: "map (\<lambda>x. show_double (h_balance x)) xs = map show_double (map h_balance xs)" for xs :: "spin list"
    by simp
  show ?thesis
    unfolding Let_def hr printed_def m using n run(2,3) by (simp add: spin_rows_fields)
qed

theorem spin_history_records_witness:
  "(\<forall>k. \<not> fault no_faults k) \<and> (\<forall>n k. draws no_faults n k < 4)
   \<and> list_all is_finite (in_bets two_bets)
   \<and> spin_history (db (start fresh_tables)) = Some \<lparr>rows = [], seq = 0\<rparr>
   \<and> has_room \<lparr>rows = [], seq = 0\<rparr> (turns (in_choices two_bets) (in_bets two_bets))
   \<and> turns (in_choices two_bets) (in_bets two_bets) = 2
   \<and> length (history_rows (db (snd (snd (play no_faults two_bets (start fresh_tables)))))) = 2
   \<and> history_rows (db (snd (snd (play no_faults two_bets (start fresh_tables))))) =
       [\<lparr>h_id = 1, h_player_id = 1, h_bet = Fin 10, h_winnings = Fin 0, h_balance = Fin 90\<rparr>,
        \<lparr>h_id = 2, h_player_id = 1, h_bet = Fin 150, h_winnings = Fin 0, h_balance = Fin (- 60)\<rparr>]
   \<and> printed (cout (snd (snd (play no_faults two_bets (start fresh_tables))))) = [''90'', ''-60'']"
proof -
  have h1: "\<forall>k. \<not> fault no_faults k" by (simp add: no_faults_def)
  have h3: "list_all is_finite (in_bets two_bets)" by code_simp
  have h4: "spin_history (db (start fresh_tables)) = Some \<lparr>rows = [], seq = 0\<rparr>"
    by (simp add: start_def fresh_tables_def)
  have t: "turns (in_choices two_bets) (in_bets two_bets) = 2" by code_simp
  have h5: "has_room \<lparr>rows = [], seq = 0\<rparr> (turns (in_choices two_bets) (in_bets two_bets))"
    unfolding t by (simp add: has_room_def max_rowid_def)
  note th = spin_history_records[OF h1 no_faults_draws h3 h4 h5, unfolded Let_def t]
  have len: "length (history_rows (db (snd (snd (play no_faults two_bets (start fresh_tables)))))) = 2"
    using th by simp
  have rows: "history_rows (db (snd (snd (play no_faults two_bets (start fresh_tables))))) =
       [\<lparr>h_id = 1, h_player_id = 1, h_bet = Fin 10, h_winnings = Fin 0, h_balance = Fin 90\<rparr>,
        \<lparr>h_id = 2, h_player_id = 1, h_bet = Fin 150, h_winnings = Fin 0, h_balance = Fin (- 60)\<rparr>]"
    unfolding alice_session by (simp add: alice_file_def history_rows_def)
  have p0: "printed (cout (start fresh_tables)) = []"
    by (simp add: printed_def start_def)
  have sd: "show_double (Fin 90) = ''90''" "show_double (Fin (- 60)) = ''-60''"
    by code_simp+
  have pr: "printed (cout (snd (snd (play no_faults two_bets (start fresh_tables))))) = [''90'', ''-60'']"
    using th unfolding rows p0 by (simp add: sd)
  show ?thesis
    by (intro conjI h1 no_faults_draws h3 h4 h5 t len rows pr)
qed

text \<open>
  The balance printed is not always the balance stored, as C4 has it. After one bet of
  \<^verbatim>\<open>1e-07\<close> in a first session on a new file, the history row holds the double next to
  99.9999999, and the line printed is \<^verbatim>\<open>New Balance: 100\<close>, the text of the opening balance
  100.0.
\<close>

theorem printed_balance_not_stored_counterexample:
  "fst (main no_faults tiny_bet empty_file) = Some 0
   \<and> printed (cout (snd (main no_faults tiny_bet empty_file))) = [''100'']
   \<and> map h_balance (history_rows (db (snd (main no_faults tiny_bet empty_file)))) =
       [Fin (3518437205364763 / 35184372088832)]
   \<and> show_double (Fin 100) = ''100''
   \<and> Fin (3518437205364763 / 35184372088832) \<noteq> Fin 100"
  by code_simp

text \<open>
  Claim C9. An \<^verbatim>\<open>updateBalance\<close> that goes through keeps the number and the order of the
  players' rows; in every row the id, the name, the age and the card stay, and the balance
  becomes the given amount when the id is the given one and stays otherwise. The amount is
  not inspected: whatever double is passed is stored, a negative one too (a NaN, which no
  session produces, is stored as NULL). The high-water mark, the spin history and standard
  output and error are as before.
\<close>

theorem updateBalance_overwrites:
  assumes "\<not> fault E (calls s)" and "players (db s) = Some t"
  shows "(let s' = updateBalance E i amount s
          in (\<exists>t'. players (db s') = Some t' \<and> seq t' = seq t
                \<and> length (rows t') = length (rows t)
                \<and> (\<forall>k < length (rows t).
                      p_id (rows t' ! k) = p_id (rows t ! k)
                    \<and> p_name (rows t' ! k) = p_name (rows t ! k)
                    \<and> p_age (rows t' ! k) = p_age (rows t ! k)
                    \<and> p_card (rows t' ! k) = p_card (rows t ! k)
                    \<and> p_balance (rows t' ! k) =
                        (if p_id (rows t ! k) = i then bind_double amount
                         else p_balance (rows t ! k))))
           \<and> (amount \<noteq> NaN \<longrightarrow> bind_double amount = Some amount)
           \<and> spin_history (db s') = spin_history (db s)
           \<and> cout s' = cout s \<and> cerr s' = cerr s)"
proof -
  let ?t' = "t\<lparr>rows := map (set_balance i (bind_double amount)) (rows t)\<rparr>"
  have p: "players (db (updateBalance E i amount s)) = Some ?t'"
    using assms by (simp add: updateBalance_players)
  have rows: "\<forall>k < length (rows t).
                      p_id (rows ?t' ! k) = p_id (rows t ! k)
                    \<and> p_name (rows ?t' ! k) = p_name (rows t ! k)
                    \<and> p_age (rows ?t' ! k) = p_age (rows t ! k)
                    \<and> p_card (rows ?t' ! k) = p_card (rows t ! k)
                    \<and> p_balance (rows ?t' ! k) =
                        (if p_id (rows t ! k) = i then bind_double amount
                         else p_balance (rows t ! k))"
    by (simp add: set_balance_def)
  have e: "cerr (updateBalance E i amount s) = cerr s"
    using assms by simp
  have b: "amount \<noteq> NaN \<longrightarrow> bind_double amount = Some amount"
    by (simp add: bind_double_def)
  have ex: "\<exists>t'. players (db (updateBalance E i amount s)) = Some t' \<and> seq t' = seq t
                \<and> length (rows t') = length (rows t)
                \<and> (\<forall>k < length (rows t).
                      p_id (rows t' ! k) = p_id (rows t ! k)
                    \<and> p_name (rows t' ! k) = p_name (rows t ! k)
                    \<and> p_age (rows t' ! k) = p_age (rows t ! k)
                    \<and> p_card (rows t' ! k) = p_card (rows t ! k)
                    \<and> p_balance (rows t' ! k) =
                        (if p_id (rows t ! k) = i then bind_double amount
                         else p_balance (rows t ! k)))"
    using p rows by (intro exI[of _ ?t']) simp
  show ?thesis
    unfolding Let_def using ex b e by simp
qed

theorem updateBalance_overwrites_witness:
  "\<not> fault no_faults (calls (start alice_file))
   \<and> players (db (start alice_file)) = Some \<lparr>rows = [alice_row], seq = 1\<rparr>
   \<and> (\<exists>t'. players (db (updateBalance no_faults 1 (Fin (- 25)) (start alice_file))) = Some t'
         \<and> seq t' = 1 \<and> length (rows t') = 1
         \<and> p_id (rows t' ! 0) = 1 \<and> p_name (rows t' ! 0) = ''Alice''
         \<and> p_balance (rows t' ! 0) = Some (Fin (- 25)))
   \<and> spin_history (db (updateBalance no_faults 1 (Fin (- 25)) (start alice_file)))
       = spin_history (db (start alice_file))"
proof -
  have h1: "\<not> fault no_faults (calls (start alice_file))" by (simp add: no_faults_def)
  have h2: "players (db (start alice_file)) = Some \<lparr>rows = [alice_row], seq = 1\<rparr>"
    by (simp add: start_def alice_file_def)
  note th = updateBalance_overwrites[OF h1 h2, of 1 "Fin (- 25)", unfolded Let_def]
  from th obtain t' where t': "players (db (updateBalance no_faults 1 (Fin (- 25)) (start alice_file))) = Some t'"
    "seq t' = seq \<lparr>rows = [alice_row], seq = 1\<rparr>"
    "length (rows t') = length (rows \<lparr>rows = [alice_row], seq = 1\<rparr>)"
    "\<forall>k < length (rows \<lparr>rows = [alice_row], seq = 1\<rparr>).
        p_id (rows t' ! k) = p_id (rows \<lparr>rows = [alice_row], seq = 1\<rparr> ! k)
      \<and> p_name (rows t' ! k) = p_name (rows \<lparr>rows = [alice_row], seq = 1\<rparr> ! k)
      \<and> p_age (rows t' ! k) = p_age (rows \<lparr>rows = [alice_row], seq = 1\<rparr> ! k)
      \<and> p_card (rows t' ! k) = p_card (rows \<lparr>rows = [alice_row], seq = 1\<rparr> ! k)
      \<and> p_balance (rows t' ! k) =
           (if p_id (rows \<lparr>rows = [alice_row], seq = 1\<rparr> ! k) = 1 then bind_double (Fin (- 25))
            else p_balance (rows \<lparr>rows = [alice_row], seq = 1\<rparr> ! k))"
    by blast
  from t'(4) have r0: "p_id (rows t' ! 0) = 1" "p_name (rows t' ! 0) = ''Alice''"
      "p_balance (rows t' ! 0) = Some (Fin (- 25))"
    by (simp_all add: alice_row_def bind_double_def)
  have a: "\<exists>t'. players (db (updateBalance no_faults 1 (Fin (- 25)) (start alice_file))) = Some t'
         \<and> seq t' = 1 \<and> length (rows t') = 1
         \<and> p_id (rows t' ! 0) = 1 \<and> p_name (rows t' ! 0) = ''Alice''
         \<and> p_balance (rows t' ! 0) = Some (Fin (- 25))"
    using t'(1,2,3) r0 by (intro exI[of _ t']) simp
  have b: "spin_history (db (updateBalance no_faults 1 (Fin (- 25)) (start alice_file)))
       = spin_history (db (start alice_file))"
    using th by blast
  show ?thesis by (intro conjI h1 h2 a b)
qed

subsection \<open>Leaving the loop\<close>





lemma spin_once_cout:
  "cout (snd (spin_once E p bet g (bal, s))) =
     cout s @ concat (map (\<lambda>row. concat (map (\<lambda>symbol. [Chr symbol, Str '' '']) row) @ [Endl]) g)
       @ [Str ''New Balance: '', Dbl (dadd bal (dsub (Fin 0) bet)), Endl]"
  by (simp add: spin_once_def Let_def displaySpinResult_def)




subsection \<open>Failures of the store\<close>

lemma main_open_fails:
  "fault E 0 \<Longrightarrow> main E inp dbfile =
     (Some 1, \<lparr>db = dbfile, cout = [], cerr = [Str ''Error opening database.'', Endl],
               calls = 1, spins = 0\<rparr>)"
  by (simp add: main_def SlotMachine_def sqlite_call_def start_def eprint_def)

lemma failed_calls:
  assumes "fault E (calls s)"
  shows "executeQuery E q s =
           s\<lparr>cerr := cerr s @ [Str ''Error executing query: '', ErrMsg, Endl], calls := Suc (calls s)\<rparr>"
    and "addPlayer E n a c s =
           s\<lparr>cerr := cerr s @ [Str ''Error adding player.'', Endl], calls := Suc (calls s)\<rparr>"
    and "updateBalance E i b s =
           s\<lparr>cerr := cerr s @ [Str ''Error updating balance.'', Endl], calls := Suc (calls s)\<rparr>"
    and "saveSpinHistory E i bet w b s =
           s\<lparr>cerr := cerr s @ [Str ''Error saving spin history.'', Endl], calls := Suc (calls s)\<rparr>"
  using assms
  by (simp_all add: executeQuery_def addPlayer_def updateBalance_def saveSpinHistory_def
        sqlite_call_def eprint_def)

lemma spin_once_shown:
  assumes "cout s' = cout s" "calls s' = calls s" "spins s' = spins s"
  shows "fst (spin_once E' p bet g (bal, s')) = fst (spin_once E p bet g (bal, s))"
    and "cout (snd (spin_once E' p bet g (bal, s'))) = cout (snd (spin_once E p bet g (bal, s)))"
    and "calls (snd (spin_once E' p bet g (bal, s'))) = calls (snd (spin_once E p bet g (bal, s)))"
    and "spins (snd (spin_once E' p bet g (bal, s'))) = spins (snd (spin_once E p bet g (bal, s)))"
  using assms by (simp_all add: spin_once_cout)

lemma spin_loop_shown:
  assumes d: "draws E' = draws E"
  shows "cout s' = cout s \<Longrightarrow> calls s' = calls s \<Longrightarrow> spins s' = spins s \<Longrightarrow>
         shown (spin_loop E' p cs bets (bal, s')) = shown (spin_loop E p cs bets (bal, s))"
proof (induction cs arbitrary: bets bal s s')
  case Nil
  then show ?case by (simp add: shown_def)
next
  case (Cons c cs)
  show ?case
  proof (cases "c = CHR ''q''")
    case True
    with Cons.prems show ?thesis by (simp add: shown_def)
  next
    case False
    show ?thesis
    proof (cases bets)
      case Nil
      with False Cons.prems show ?thesis by (simp add: shown_def)
    next
      case (Cons bet bets')
      show ?thesis
      proof (cases "getSpinResult (draws E (spins s))")
        case None
        with False Cons Cons.prems d show ?thesis by (simp add: shown_def)
      next
        case (Some g)
        let ?t = "print [Str ''Enter your bet amount: ''] (print [Str ''Press 'p' to play, 'q' to quit: ''] s)"
        let ?t' = "print [Str ''Enter your bet amount: ''] (print [Str ''Press 'p' to play, 'q' to quit: ''] s')"
        obtain b1 s1 where so: "spin_once E p bet g (bal, ?t) = (b1, s1)"
          by (cases "spin_once E p bet g (bal, ?t)")
        obtain b1' s1' where so': "spin_once E' p bet g (bal, ?t') = (b1', s1')"
          by (cases "spin_once E' p bet g (bal, ?t')")
        have pre: "cout ?t' = cout ?t" "calls ?t' = calls ?t" "spins ?t' = spins ?t"
          using Cons.prems by simp_all
        note eq = spin_once_shown[OF pre, of E' p bet g bal E]
        have e: "b1' = b1" "cout s1' = cout s1" "calls s1' = calls s1" "spins s1' = spins s1"
          using eq so so' by simp_all
        have g': "getSpinResult (draws E' (spins s')) = Some g"
          using Some d Cons.prems(3) by simp
        have l: "spin_loop E p (c # cs) bets (bal, s) = spin_loop E p cs bets' (b1, s1)"
          using False Cons Some so by (simp add: Let_def)
        have l': "spin_loop E' p (c # cs) bets (bal, s') = spin_loop E' p cs bets' (b1, s1')"
          using False Cons g' so' e(1) by (simp add: Let_def)
        show ?thesis
          unfolding l l' by (rule Cons.IH[OF e(2,3,4)])
      qed
    qed
  qed
qed

text \<open>
  Claim C8. When the file cannot be opened, \<^verbatim>\<open>main\<close> writes its diagnostic to standard error
  and exits with status 1, having done nothing else: nothing on standard output, the file
  untouched, one call into SQLite. When any of the four other operations fails, it writes
  its diagnostic to standard error, leaves the file as it was, and returns as it does on
  success: one call was made (no retry), standard output and the spin counter are as
  before, and there is no error value that a caller could see. So what a run of the loop
  shows (outcome, balance, standard output, number of calls and of spins) is the same
  under any two environments with the same draws, whichever calls fail in either.
\<close>

theorem failures_logged_and_ignored:
  "(fault E 0 \<longrightarrow>
      main E inp dbfile =
        (Some 1, \<lparr>db = dbfile, cout = [], cerr = [Str ''Error opening database.'', Endl],
                  calls = 1, spins = 0\<rparr>))
   \<and> (fault E (calls s) \<longrightarrow>
        executeQuery E q s =
          s\<lparr>cerr := cerr s @ [Str ''Error executing query: '', ErrMsg, Endl], calls := Suc (calls s)\<rparr>
      \<and> addPlayer E n a c s =
          s\<lparr>cerr := cerr s @ [Str ''Error adding player.'', Endl], calls := Suc (calls s)\<rparr>
      \<and> updateBalance E i b s =
          s\<lparr>cerr := cerr s @ [Str ''Error updating balance.'', Endl], calls := Suc (calls s)\<rparr>
      \<and> saveSpinHistory E i bet w b s =
          s\<lparr>cerr := cerr s @ [Str ''Error saving spin history.'', Endl], calls := Suc (calls s)\<rparr>)
   \<and> cout (createTables E s) = cout s \<and> calls (createTables E s) = calls s + 2
   \<and> (draws E' = draws E \<longrightarrow>
        shown (spin_loop E' p cs bets (bal, s)) = shown (spin_loop E p cs bets (bal, s)))"
proof (intro conjI impI)
  show "main E inp dbfile =
        (Some 1, \<lparr>db = dbfile, cout = [], cerr = [Str ''Error opening database.'', Endl],
                  calls = 1, spins = 0\<rparr>)" if "fault E 0"
    using that by (rule main_open_fails)
  show "cout (createTables E s) = cout s" by (simp add: createTables_def)
  show "calls (createTables E s) = calls s + 2" by (simp add: createTables_def)
  show "shown (spin_loop E' p cs bets (bal, s)) = shown (spin_loop E p cs bets (bal, s))"
    if "draws E' = draws E"
    using that by (rule spin_loop_shown) simp_all
  {
    assume f: "fault E (calls s)"
    show "executeQuery E q s =
          s\<lparr>cerr := cerr s @ [Str ''Error executing query: '', ErrMsg, Endl], calls := Suc (calls s)\<rparr>"
      by (rule failed_calls(1)[OF f])
    show "addPlayer E n a c s =
          s\<lparr>cerr := cerr s @ [Str ''Error adding player.'', Endl], calls := Suc (calls s)\<rparr>"
      by (rule failed_calls(2)[OF f])
    show "updateBalance E i b s =
          s\<lparr>cerr := cerr s @ [Str ''Error updating balance.'', Endl], calls := Suc (calls s)\<rparr>"
      by (rule failed_calls(3)[OF f])
    show "saveSpinHistory E i bet w b s =
          s\<lparr>cerr := cerr s @ [Str ''Error saving spin history.'', Endl], calls := Suc (calls s)\<rparr>"
      by (rule failed_calls(4)[OF f])
  }
qed

theorem failures_logged_and_ignored_witness:
  "fault open_fails 0
   \<and> main open_fails two_bets alice_file =
        (Some 1, \<lparr>db = alice_file, cout = [], cerr = [Str ''Error opening database.'', Endl],
                  calls = 1, spins = 0\<rparr>)
   \<and> fault insert_fails (calls ((start fresh_tables)\<lparr>calls := 1\<rparr>))
   \<and> db (updateBalance insert_fails 1 (Fin 100) ((start fresh_tables)\<lparr>calls := 1\<rparr>)) = fresh_tables
   \<and> cerr (saveSpinHistory insert_fails 1 (Fin 10) (Fin 0) (Fin 90) ((start fresh_tables)\<lparr>calls := 1\<rparr>))
       = [Str ''Error saving spin history.'', Endl]
   \<and> draws insert_fails = draws no_faults
   \<and> shown (spin_loop insert_fails 1 (in_choices two_bets) (in_bets two_bets) (Fin 100, start fresh_tables))
       = shown (spin_loop no_faults 1 (in_choices two_bets) (in_bets two_bets) (Fin 100, start fresh_tables))"
proof -
  let ?s = "(start fresh_tables)\<lparr>calls := 1\<rparr>"
  have h1: "fault open_fails 0" by (simp add: open_fails_def)
  have h2: "fault insert_fails (calls ?s)" by (simp add: insert_fails_def)
  have h3: "draws insert_fails = draws no_faults" by (simp add: insert_fails_def no_faults_def)
  note a = failures_logged_and_ignored[where E = open_fails and inp = two_bets and dbfile = alice_file]
  note b = failures_logged_and_ignored[where E = insert_fails and s = ?s and i = 1]
  note c = failures_logged_and_ignored[where E = no_faults and E' = insert_fails and p = 1
      and cs = "in_choices two_bets" and bets = "in_bets two_bets" and bal = "Fin 100"
      and s = "start fresh_tables"]
  have m: "main open_fails two_bets alice_file =
        (Some 1, \<lparr>db = alice_file, cout = [], cerr = [Str ''Error opening database.'', Endl],
                  calls = 1, spins = 0\<rparr>)"
    using a h1 by blast
  have u: "updateBalance insert_fails 1 (Fin 100) ?s =
          ?s\<lparr>cerr := cerr ?s @ [Str ''Error updating balance.'', Endl], calls := Suc (calls ?s)\<rparr>"
    using b[where b = "Fin 100"] h2 by blast
  have u': "db (updateBalance insert_fails 1 (Fin 100) ?s) = fresh_tables"
    unfolding u by (simp add: start_def)
  have v: "saveSpinHistory insert_fails 1 (Fin 10) (Fin 0) (Fin 90) ?s =
          ?s\<lparr>cerr := cerr ?s @ [Str ''Error saving spin history.'', Endl], calls := Suc (calls ?s)\<rparr>"
    using b[where b = "Fin 90" and bet = "Fin 10" and w = "Fin 0"] h2 by blast
  have v': "cerr (saveSpinHistory insert_fails 1 (Fin 10) (Fin 0) (Fin 90) ?s)
       = [Str ''Error saving spin history.'', Endl]"
    unfolding v by (simp add: start_def)
  have w: "shown (spin_loop insert_fails 1 (in_choices two_bets) (in_bets two_bets) (Fin 100, start fresh_tables))
       = shown (spin_loop no_faults 1 (in_choices two_bets) (in_bets two_bets) (Fin 100, start fresh_tables))"
    using c h3 by blast
  show ?thesis
    by (intro conjI h1 m h2 u' v' h3 w)
qed

subsection \<open>No session stores a NaN\<close>

lemma spin_loop_not_NaN:
  assumes "list_all is_finite bets" and "bal \<noteq> NaN"
  shows "fst (snd (spin_loop E p cs bets (bal, s))) \<noteq> NaN"
proof -
  let ?P = "\<lambda>(b::double) (s'::proc). b \<noteq> NaN"
  have step: "?P (fst (spin_once E p bet g (b, s'))) (snd (spin_once E p bet g (b, s')))"
    if "is_finite bet" "?P b s'" for bet g b s'
    using dsub_not_NaN[OF that(2,1)] that(1) by (simp add: settle_finite)
  show ?thesis
    by (rule spin_loop_invariant[where Q = is_finite and P = ?P, OF _ step assms])
qed

lemma play_not_NaN:
  "list_all is_finite (in_bets inp) \<Longrightarrow> fst (snd (play E inp s)) \<noteq> NaN"
  unfolding play_unfold by (rule spin_loop_not_NaN) simp_all

subsection \<open>The two scenarios of the specification\<close>

text \<open>
  A first session of Alice, 30, card 1111 on a file that does not exist yet, with one bet
  of 10 and then \<^verbatim>\<open>'q'\<close>: exit status 0, the balance 90 reported, one player row with
  balance 90, one history row, nothing on standard error. Then a second launch on the
  file so left, which quits at once: the stored balance is 100 again.
\<close>

lemma scenario_first_session:
  "fst (main no_faults one_bet empty_file) = Some 0"
  "reported (cout (snd (main no_faults one_bet empty_file))) = [Fin 90]"
  "cerr (snd (main no_faults one_bet empty_file)) = []"
  "db (snd (main no_faults one_bet empty_file)) =
     \<lparr>players = Some \<lparr>rows = [\<lparr>p_id = 1, p_name = ''Alice'', p_age = 30, p_card = ''1111'',
                                  p_balance = Some (Fin 90)\<rparr>], seq = 1\<rparr>,
      spin_history = Some \<lparr>rows = [\<lparr>h_id = 1, h_player_id = 1, h_bet = Fin 10,
                                     h_winnings = Fin 0, h_balance = Fin 90\<rparr>], seq = 1\<rparr>\<rparr>"
  by code_simp+

lemma scenario_relaunch:
  "fst (main no_faults relaunch (db (snd (main no_faults one_bet empty_file)))) = Some 0"
  "players (db (snd (main no_faults relaunch (db (snd (main no_faults one_bet empty_file)))))) =
     Some \<lparr>rows = [\<lparr>p_id = 1, p_name = ''Alice'', p_age = 30, p_card = ''1111'',
                     p_balance = Some (Fin 100)\<rparr>], seq = 1\<rparr>"
  by code_simp+

subsection \<open>An invariant of the file: rowids are positive and below the high-water mark\<close>

text \<open>
  Every file that the program made from nothing satisfies \<open>rowids_ok\<close>: it holds of the
  empty file and every run of \<^verbatim>\<open>main\<close> keeps it, whichever calls fail. With it no player has
  the id \<open>-1\<close>, and \<open>small_ids\<close> adds to it only that fewer than \<open>2\<^sup>3\<^sup>1 - 1\<close> players were
  ever stored.
\<close>

lemma rowids_ok_players: "players st' = players st \<Longrightarrow> rowids_ok st' = rowids_ok st"
  by (simp add: rowids_ok_def)

lemma rowids_ok_empty: "rowids_ok empty_file"
  by (simp add: rowids_ok_def empty_file_def)

lemma rowids_ok_small: "players st = Some t \<Longrightarrow> small_ids t = (rowids_ok st \<and> seq t < 2 ^ 31 - 1)"
  by (auto simp: rowids_ok_def small_ids_def)

lemma rowids_ok_no_sentinel: "rowids_ok st \<Longrightarrow> list_all (\<lambda>x. p_id x \<noteq> - 1) (player_rows st)"
  by (cases "players st") (auto simp: rowids_ok_def player_rows_def list_all_iff)

lemma rowids_ok_executeQuery: "rowids_ok (db s) \<Longrightarrow> rowids_ok (db (executeQuery E q s))"
  by (cases q; cases "players (db s)"; cases "spin_history (db s)")
     (auto simp: executeQuery_def sqlite_call_def sql_create_def eprint_def rowids_ok_def)

lemma rowids_ok_createTables: "rowids_ok (db s) \<Longrightarrow> rowids_ok (db (createTables E s))"
  by (simp add: createTables_def rowids_ok_executeQuery)

lemma rowids_ok_addPlayer:
  assumes "rowids_ok (db s)"
  shows "rowids_ok (db (addPlayer E n a c s))"
proof (cases "players (db s)")
  case None
  then have "players (db (addPlayer E n a c s)) = players (db s)"
    by (simp add: addPlayer_players)
  from rowids_ok_players[OF this] assms show ?thesis by simp
next
  case (Some t)
  have t: "0 \<le> seq t" "\<forall>r \<in> set (rows t). 1 \<le> p_id r \<and> p_id r \<le> seq t"
    using assms unfolding rowids_ok_def Some by (simp_all add: list_all_iff)
  have m: "fold max (map p_id (rows t)) (seq t) = seq t"
  proof (rule fold_max_bounded)
    show "\<forall>i \<in> set (map p_id (rows t)). i \<le> seq t" using t(2) by simp
  qed
  show ?thesis
  proof (cases "fault E (calls s) \<or> \<not> seq t < max_rowid")
    case True
    then have "players (db (addPlayer E n a c s)) = players (db s)"
      by (auto simp: addPlayer_players Some next_rowid_def m Let_def)
    from rowids_ok_players[OF this] assms show ?thesis by simp
  next
    case False
    then have "players (db (addPlayer E n a c s)) =
        Some \<lparr>rows = rows t @ [\<lparr>p_id = seq t + 1, p_name = c_str n, p_age = a, p_card = c_str c,
                                 p_balance = Some (Fin 0)\<rparr>], seq = seq t + 1\<rparr>"
      by (simp add: addPlayer_players Some next_rowid_def m Let_def)
    then show ?thesis
      unfolding rowids_ok_def using t by (auto simp: list_all_iff)
  qed
qed

lemma rowids_ok_updateBalance:
  assumes "rowids_ok (db s)"
  shows "rowids_ok (db (updateBalance E i b s))"
  using assms
  by (cases "players (db s)")
     (auto simp: rowids_ok_def updateBalance_players list_all_iff)

lemma rowids_ok_spin_once:
  assumes "rowids_ok (db s)"
  shows "rowids_ok (db (snd (spin_once E i bet g (bal, s))))"
  using assms
  by (cases "players (db s)")
     (auto simp: rowids_ok_def spin_once_players list_all_iff)

lemma rowids_ok_spin_loop:
  assumes "rowids_ok (db s)"
  shows "rowids_ok (db (snd (snd (spin_loop E i cs bets (bal, s)))))"
proof -
  have la: "list_all (\<lambda>_. True) bets" by (simp add: list_all_iff)
  let ?P = "\<lambda>(_::double) s'. rowids_ok (db s')"
  have pr: "?P bal (print xs s')" if "?P bal s'" for xs bal s'
    using that by simp
  have step: "?P (fst (spin_once E i bet g (bal, s'))) (snd (spin_once E i bet g (bal, s')))"
    if "?P bal s'" for bet g bal s'
    using that by (rule rowids_ok_spin_once)
  show ?thesis
    by (rule spin_loop_invariant[where Q = "\<lambda>_. True" and P = ?P, OF pr step la assms])
qed

lemma rowids_ok_identify:
  assumes "rowids_ok (db s)"
  shows "rowids_ok (db (snd (identify E n a c s)))"
proof -
  let ?s0 = "print [Str ''Enter your name: '', Str ''Enter your age: '', Str ''Enter your card: ''] s"
  let ?s2 = "print [Str ''New player detected. Adding to database.'', Endl] (?s0\<lparr>calls := Suc (calls ?s0)\<rparr>)"
  have "rowids_ok (db ?s2)" using assms by simp
  then have "rowids_ok (db (addPlayer E n a c ?s2))" by (rule rowids_ok_addPlayer)
  then show ?thesis
    using db_resolve[of E n a c ?s0] assms by (auto simp: identify_unfold)
qed

lemma rowids_ok_play:
  assumes "rowids_ok (db s)"
  shows "rowids_ok (db (snd (snd (play E inp s))))"
  unfolding play_unfold
  by (intro rowids_ok_spin_loop rowids_ok_updateBalance rowids_ok_identify assms)

lemma rowids_ok_main:
  assumes "rowids_ok dbfile"
  shows "rowids_ok (db (snd (main E inp dbfile)))"
proof (cases "fault E 0")
  case True
  then show ?thesis using assms by (simp add: main_open_fails)
next
  case False
  let ?s = "createTables E ((start dbfile)\<lparr>calls := Suc 0\<rparr>)"
  have "rowids_ok (db ((start dbfile)\<lparr>calls := Suc 0\<rparr>))" using assms by (simp add: start_def)
  then have "rowids_ok (db ?s)" by (rule rowids_ok_createTables)
  then have p: "rowids_ok (db (snd (snd (play E inp ?s))))" by (rule rowids_ok_play)
  have "snd (main E inp dbfile) = snd (snd (play E inp ?s))"
    using False
    by (simp add: main_def SlotMachine_def sqlite_call_def start_def split: prod.splits outcome.splits)
  with p show ?thesis by simp
qed

end
